theory Spec2Isabelle
  imports Complex_Main "HOL-Library.Char_ord" "HOL-Library.List_Lexorder"
begin

section \<open>Errors and results\<close>

text \<open>
  The exceptions the modelled code raises or lets through. \<open>AssertionError\<close> is what a
  failed \<^verbatim>\<open>assert\<close> raises, \<open>AttributeError\<close> what a method call on \<^verbatim>\<open>None\<close> raises,
  \<open>TooSlowError\<close> what \<^verbatim>\<open>trio.fail_after\<close> raises when its deadline passes,
  \<open>OpenRoverException\<close> the domain error of \<^verbatim>\<open>openrover.util\<close>. \<open>ChannelClosed\<close>,
  \<open>DecodeError\<close> and \<open>TransportError\<close> are the failures the protocol channel surfaces;
  \<open>SubmitRejected\<close> stands for the channel refusing a frame whose motor values are out
  of range. \<open>CalledProcessError\<close> is raised by \<^verbatim>\<open>subprocess.check_call\<close>.
\<close>

datatype error =
    AssertionError
  | AttributeError
  | ValueError
  | TypeError
  | OpenRoverException
  | TooSlowError
  | ChannelClosed
  | DecodeError
  | TransportError
  | SubmitRejected
  | CalledProcessError

text \<open>
  A method that mutates its object returns the outcome together with the object as the
  call leaves it, also when it raises: \<open>(Inl e, s')\<close> is the exception \<open>e\<close> leaving the
  object in state \<open>s'\<close>.
\<close>

type_synonym ('r, 's) result = "(error + 'r) \<times> 's"

section \<open>The protocol channel (openrover\_protocol.py, not among the sources)\<close>

text \<open>
  \<open>CommandVerbs\<close> is an integer enumeration (rover.py, line 67, applies \<^verbatim>\<open>int\<close> to a
  member). Its declaration is not among the sources, so the table is a parameter: the
  value of each member the code names, and the list of all member values, which decides
  whether the lookup by value \<^verbatim>\<open>CommandVerbs(n)\<close> succeeds. A verb is its integer value.
\<close>

record CommandVerbs =
  NOP :: int
  GET_DATA :: int
  SET_FAN_SPEED :: int
  FLIPPER_CALIBRATE :: int
  RESTART :: int
  RELOAD_SETTINGS :: int
  COMMIT_SETTINGS :: int
  members :: "int list"

text \<open>The frame handed to the channel: the five arguments of \<^verbatim>\<open>write_nowait\<close>.\<close>

record CommandFrame =
  cf_left :: rat
  cf_right :: rat
  cf_flipper :: rat
  cf_verb :: int
  cf_arg :: int

text \<open>
  The channel as the session layer sees it: the frames submitted so far, oldest first,
  and the responses still to come. A pending response is the time the reader has to wait
  for it once it starts reading, and what the read then yields: a decoded pair
  \<open>(key, value)\<close> or a failure of the channel. An empty list is a device that stays
  silent.
\<close>

record 'a OpenRoverProtocol =
  outgoing :: "CommandFrame list"
  incoming :: "(rat \<times> (error + int \<times> 'a)) list"

definition in_unit_range :: "rat \<Rightarrow> bool" where
  "in_unit_range x = (- 1 \<le> x \<and> x \<le> 1)"

text \<open>
  Modelled from the spec: \<^verbatim>\<open>OpenRoverProtocol.write_nowait\<close> (the spec's \<open>submit\<close>) is
  missing from the sources. It validates that the motor values are within the normalized
  range, then appends the frame to the unbounded outgoing queue and returns at once.
\<close>

definition write_nowait ::
  "rat \<Rightarrow> rat \<Rightarrow> rat \<Rightarrow> int \<Rightarrow> int \<Rightarrow> 'a OpenRoverProtocol \<Rightarrow> error + 'a OpenRoverProtocol" where
  "write_nowait left right flipper cmd a p =
     (if in_unit_range left \<and> in_unit_range right \<and> in_unit_range flipper
      then Inr (p\<lparr>outgoing := outgoing p @
             [\<lparr>cf_left = left, cf_right = right, cf_flipper = flipper,
               cf_verb = cmd, cf_arg = a\<rparr>]\<rparr>)
      else Inl SubmitRejected)"

text \<open>
  Modelled from the spec: \<^verbatim>\<open>OpenRoverProtocol.read_one\<close> is missing from the sources. It
  suspends the caller until the next response is decoded and returns its key and value,
  or surfaces the channel's failure. Here it runs under a deadline, as every call in the
  sources does (\<^verbatim>\<open>with trio.fail_after(t)\<close>): \<open>budget\<close> is the time left. A response
  that needs less than the budget is consumed and the time it took is taken off the
  budget; otherwise the wait is abandoned with \<open>TooSlowError\<close>, the channel stays open
  and the response stays pending, nearer by the time waited.
\<close>

definition read_one ::
  "rat \<Rightarrow> 'a OpenRoverProtocol \<Rightarrow> (error + int \<times> 'a) \<times> rat \<times> 'a OpenRoverProtocol" where
  "read_one budget p =
     (case incoming p of
        [] \<Rightarrow> (Inl TooSlowError, 0, p)
      | (d, r) # rest \<Rightarrow>
          if d < budget then (r, budget - d, p\<lparr>incoming := rest\<rparr>)
          else (Inl TooSlowError, 0, p\<lparr>incoming := (d - budget, r) # rest\<rparr>))"

section \<open>The session layer (rover.py, class Rover)\<close>

text \<open>
  The fields of \<^verbatim>\<open>Rover\<close> that its methods read or write: the motor triple and the
  protocol object, which is \<^verbatim>\<open>None\<close> until \<^verbatim>\<open>set_device\<close> has run. Motor values are
  Python numbers, each the rational number it denotes; they are compared, stored and
  handed on as they are, and no arithmetic is done on them.
\<close>

record 'a Rover =
  motor_left :: rat
  motor_right :: rat
  motor_flipper :: rat
  rover_protocol :: "'a OpenRoverProtocol option"

definition Rover_init :: "'a Rover" where
  "Rover_init = \<lparr>motor_left = 0, motor_right = 0, motor_flipper = 0, rover_protocol = None\<rparr>"

definition set_device :: "'a OpenRoverProtocol \<Rightarrow> 'a Rover \<Rightarrow> 'a Rover" where
  "set_device p s = s\<lparr>rover_protocol := Some p\<rparr>"

text \<open>
  \<^verbatim>\<open>set_motor_speeds\<close>: three assertions in order, then three assignments.
\<close>

definition set_motor_speeds :: "rat \<Rightarrow> rat \<Rightarrow> rat \<Rightarrow> 'a Rover \<Rightarrow> (unit, 'a Rover) result" where
  "set_motor_speeds left right flipper s =
     (if \<not> (- 1 \<le> left \<and> left \<le> 1) then (Inl AssertionError, s)
      else if \<not> (- 1 \<le> right \<and> right \<le> 1) then (Inl AssertionError, s)
      else if \<not> (- 1 \<le> flipper \<and> flipper \<le> 1) then (Inl AssertionError, s)
      else (Inr (), s\<lparr>motor_left := left, motor_right := right, motor_flipper := flipper\<rparr>))"

text \<open>
  \<^verbatim>\<open>_send_command\<close>: one call of \<^verbatim>\<open>write_nowait\<close> on the protocol object, with the
  three stored motor values in front of the verb and its argument.
\<close>

definition send_command :: "int \<Rightarrow> int \<Rightarrow> 'a Rover \<Rightarrow> (unit, 'a Rover) result" where
  "send_command cmd a s =
     (case rover_protocol s of
        None \<Rightarrow> (Inl AttributeError, s)
      | Some p \<Rightarrow>
          (case write_nowait (motor_left s) (motor_right s) (motor_flipper s) cmd a p of
             Inl e \<Rightarrow> (Inl e, s)
           | Inr p' \<Rightarrow> (Inr (), s\<lparr>rover_protocol := Some p'\<rparr>)))"

definition send_speed :: "CommandVerbs \<Rightarrow> 'a Rover \<Rightarrow> (unit, 'a Rover) result" where
  "send_speed cv s = send_command (NOP cv) 0 s"

text \<open>
  \<^verbatim>\<open>int(x)\<close> on a Python number truncates towards zero.
\<close>

definition py_int_of :: "rat \<Rightarrow> int" where
  "py_int_of x = (if 0 \<le> x then \<lfloor>x\<rfloor> else - \<lfloor>- x\<rfloor>)"

text \<open>
  Python's \<^verbatim>\<open>float\<close> is the IEEE 754 double: a finite double is \<open>m * 2^e\<close> with
  \<open>\<bar>m\<bar> < 2^53\<close> and \<open>e \<ge> -1074\<close>, here the rational number it denotes. An arithmetic
  operation on floats yields the exact result rounded to the nearest double, a tie going
  to the even significand. \<open>pow2\<close> is the power of two with an integer exponent and
  \<open>ilog2 y\<close> the exponent of the largest power of two that is at most \<open>y\<close>, for
  positive \<open>y\<close>. The doubles around a positive \<open>a\<close> are the multiples of
  \<open>pow2 (ulp_exponent a)\<close>: 53 significant bits, and the fixed spacing \<open>2^-1074\<close> of the
  subnormal numbers at the bottom. Results beyond the largest double (overflow to
  infinity) are not modelled; the one product of the sources is at most 240.
\<close>

definition pow2 :: "int \<Rightarrow> rat" where
  "pow2 e = (if 0 \<le> e then 2 ^ nat e else 1 / 2 ^ nat (- e))"

function ilog2 :: "rat \<Rightarrow> int" where
  "ilog2 y = (if 2 \<le> y then ilog2 (y / 2) + 1
              else if 0 < y \<and> y < 1 then ilog2 (2 * y) - 1
              else 0)"
  by pat_completeness auto
termination
proof (relation "measure (\<lambda>y. if 2 \<le> y then nat \<lfloor>y\<rfloor> else if 0 < y \<and> y < 1 then nat \<lfloor>1 / y\<rfloor> + 1 else 0)")
  show "wf (measure (\<lambda>y. if 2 \<le> y then nat \<lfloor>y\<rfloor> else if 0 < y \<and> y < 1 then nat \<lfloor>1 / y\<rfloor> + 1 else 0))"
    by simp
next
  fix y :: rat
  assume y: "2 \<le> y"
  have "\<lfloor>y / 2\<rfloor> < \<lfloor>y\<rfloor>"
  proof -
    have "y / 2 \<le> y - 1" using y by simp
    then have "\<lfloor>y / 2\<rfloor> \<le> \<lfloor>y - 1\<rfloor>" by (rule floor_mono)
    then show ?thesis by simp
  qed
  moreover have "0 < \<lfloor>y\<rfloor>" using y by simp
  ultimately show "(y / 2, y) \<in> measure (\<lambda>y. if 2 \<le> y then nat \<lfloor>y\<rfloor> else if 0 < y \<and> y < 1 then nat \<lfloor>1 / y\<rfloor> + 1 else 0)"
    using y by auto
next
  fix y :: rat
  assume "\<not> 2 \<le> y" and y: "0 < y \<and> y < 1"
  have one: "1 \<le> 1 / y" using y by simp
  have "\<lfloor>1 / (2 * y)\<rfloor> < \<lfloor>1 / y\<rfloor>"
  proof -
    have "1 / (2 * y) = (1 / y) / 2" by simp
    also have "\<dots> \<le> 1 / y - 1 / 2" using one by simp
    finally have "1 / (2 * y) \<le> 1 / y - 1 / 2" .
    then have le: "\<lfloor>1 / (2 * y)\<rfloor> \<le> \<lfloor>1 / y - 1 / 2\<rfloor>" by (rule floor_mono)
    show ?thesis
    proof (cases "2 \<le> 1 / y")
      case True
      then have "1 / (2 * y) \<le> 1 / y - 1" by (simp add: field_simps)
      then have "\<lfloor>1 / (2 * y)\<rfloor> \<le> \<lfloor>1 / y - 1\<rfloor>" by (rule floor_mono)
      then show ?thesis by simp
    next
      case False
      then have "1 / (2 * y) < 1" by (simp add: field_simps)
      then have a: "\<lfloor>1 / (2 * y)\<rfloor> < 1" by (simp only: floor_less_one)
      have b: "1 \<le> \<lfloor>1 / y\<rfloor>" using one by (simp only: one_le_floor)
      from a b show ?thesis by linarith
    qed
  qed
  moreover have "0 < \<lfloor>1 / y\<rfloor>" using one by (simp add: less_floor_iff le_floor_iff)
  ultimately show "(2 * y, y) \<in> measure (\<lambda>y. if 2 \<le> y then nat \<lfloor>y\<rfloor> else if 0 < y \<and> y < 1 then nat \<lfloor>1 / y\<rfloor> + 1 else 0)"
    using y by auto
qed

declare ilog2.simps [simp del]

definition ulp_exponent :: "rat \<Rightarrow> int" where
  "ulp_exponent a = max (- 1074) (ilog2 a - 52)"

definition round_half_even :: "rat \<Rightarrow> int" where
  "round_half_even t =
     (let f = \<lfloor>t\<rfloor>; r = t - of_int f
      in if r < 1 / 2 then f else if 1 / 2 < r then f + 1 else if even f then f else f + 1)"

definition round_double :: "rat \<Rightarrow> rat" where
  "round_double y =
     (if y = 0 then 0
      else
        (let a = \<bar>y\<bar>;
             e = ulp_exponent a;
             r = of_int (round_half_even (a / pow2 e)) * pow2 e
         in if y < 0 then - r else r))"

text \<open>\<^verbatim>\<open>a * b\<close> on floats; an \<^verbatim>\<open>int\<close> operand is converted first, exactly when it is small.\<close>

definition float_mul :: "rat \<Rightarrow> rat \<Rightarrow> rat" where
  "float_mul a b = round_double (a * b)"

text \<open>
  \<^verbatim>\<open>set_fan_speed\<close>: the assertion, then \<^verbatim>\<open>int(fan_speed * 240)\<close> as the argument.
  \<open>fan_speed\<close> is the value of a float (a NaN or an infinity fails the assertion, so
  only finite values reach the product). With the \<^verbatim>\<open>int\<close> arguments 0 and 1 Python
  multiplies integers; the products 0 and 240 are doubles, so the rounding leaves them
  as they are.
\<close>

definition set_fan_speed :: "CommandVerbs \<Rightarrow> rat \<Rightarrow> 'a Rover \<Rightarrow> (unit, 'a Rover) result" where
  "set_fan_speed cv fan_speed s =
     (if \<not> (0 \<le> fan_speed \<and> fan_speed \<le> 1) then (Inl AssertionError, s)
      else send_command (SET_FAN_SPEED cv) (py_int_of (float_mul fan_speed 240)) s)"

definition flipper_calibrate :: "CommandVerbs \<Rightarrow> 'a Rover \<Rightarrow> (unit, 'a Rover) result" where
  "flipper_calibrate cv s = send_command (FLIPPER_CALIBRATE cv) (FLIPPER_CALIBRATE cv) s"

text \<open>
  The body of \<^verbatim>\<open>with trio.fail_after(1)\<close> in \<^verbatim>\<open>get_data\<close> and in the second loop of
  \<^verbatim>\<open>get_data_items\<close>: one read with a fresh budget of one second, then the comparison
  of the decoded key with the requested index.
\<close>

definition read_expected :: "int \<Rightarrow> 'a Rover \<Rightarrow> (int \<times> 'a, 'a Rover) result" where
  "read_expected index s =
     (case rover_protocol s of
        None \<Rightarrow> (Inl AttributeError, s)
      | Some p \<Rightarrow>
          (case read_one 1 p of
             (Inl e, _, p') \<Rightarrow> (Inl e, s\<lparr>rover_protocol := Some p'\<rparr>)
           | (Inr (k, data), _, p') \<Rightarrow>
               if k \<noteq> index then (Inl OpenRoverException, s\<lparr>rover_protocol := Some p'\<rparr>)
               else (Inr (k, data), s\<lparr>rover_protocol := Some p'\<rparr>)))"

definition get_data :: "CommandVerbs \<Rightarrow> int \<Rightarrow> 'a Rover \<Rightarrow> ('a, 'a Rover) result" where
  "get_data cv index s =
     (case send_command (GET_DATA cv) index s of
        (Inl e, s') \<Rightarrow> (Inl e, s')
      | (Inr _, s') \<Rightarrow>
          (case read_expected index s' of
             (Inl e, s'') \<Rightarrow> (Inl e, s'')
           | (Inr (k, data), s'') \<Rightarrow> (Inr data, s'')))"

text \<open>
  \<^verbatim>\<open>get_data_items\<close>. The dictionary \<^verbatim>\<open>dict.fromkeys(indices)\<close> maps every index to
  Python's \<^verbatim>\<open>None\<close>, so its values are options. The first loop submits, the second reads
  and stores; either stops at the first exception.
\<close>

fun send_requests :: "CommandVerbs \<Rightarrow> int list \<Rightarrow> 'a Rover \<Rightarrow> (unit, 'a Rover) result" where
  "send_requests cv [] s = (Inr (), s)"
| "send_requests cv (index # indices) s =
     (case send_command (GET_DATA cv) index s of
        (Inl e, s') \<Rightarrow> (Inl e, s')
      | (Inr _, s') \<Rightarrow> send_requests cv indices s')"

fun read_responses ::
  "int list \<Rightarrow> (int \<rightharpoonup> 'a option) \<Rightarrow> 'a Rover \<Rightarrow> (int \<rightharpoonup> 'a option, 'a Rover) result" where
  "read_responses [] result s = (Inr result, s)"
| "read_responses (index # indices) result s =
     (case read_expected index s of
        (Inl e, s') \<Rightarrow> (Inl e, s')
      | (Inr (k, data), s') \<Rightarrow> read_responses indices (result(k \<mapsto> Some data)) s')"

definition fromkeys :: "int list \<Rightarrow> (int \<rightharpoonup> 'a option)" where
  "fromkeys indices = (\<lambda>k. if k \<in> set indices then Some None else None)"

definition get_data_items ::
  "CommandVerbs \<Rightarrow> int list \<Rightarrow> 'a Rover \<Rightarrow> (int \<rightharpoonup> 'a option, 'a Rover) result" where
  "get_data_items cv indices0 s =
     (let indices = sort (remdups indices0);
          result = fromkeys indices
      in case send_requests cv indices s of
           (Inl e, s') \<Rightarrow> (Inl e, s')
         | (Inr _, s') \<Rightarrow> read_responses indices result s')"

text \<open>
  \<^verbatim>\<open>get_openrover_version\<close> (a module function, not a method of \<^verbatim>\<open>Rover\<close>). The loop
  \<^verbatim>\<open>for i in range(2)\<close> is the recursion on the number of attempts left; all of it runs
  under one \<^verbatim>\<open>trio.fail_after(1)\<close>, so the budget left by one read is the budget of the
  next. When the attempts are used up the loop ends and the function falls off its end:
  it returns Python's \<^verbatim>\<open>None\<close>.
\<close>

fun version_attempts ::
  "CommandVerbs \<Rightarrow> nat \<Rightarrow> rat \<Rightarrow> 'a OpenRoverProtocol \<Rightarrow> ('a option, 'a OpenRoverProtocol) result" where
  "version_attempts cv 0 budget p = (Inr None, p)"
| "version_attempts cv (Suc n) budget p =
     (case write_nowait 0 0 0 (GET_DATA cv) 40 p of
        Inl e \<Rightarrow> (Inl e, p)
      | Inr p1 \<Rightarrow>
          (case read_one budget p1 of
             (Inl e, _, p2) \<Rightarrow> (Inl e, p2)
           | (Inr (k, version), budget', p2) \<Rightarrow>
               if k = 40 then (Inr (Some version), p2)
               else version_attempts cv n budget' p2))"

text \<open>
  \<open>device\<close> is what \<^verbatim>\<open>SerialTrio(port, baudrate=57600)\<close> gives: the opened channel, or
  the exception of a port that cannot be opened. Every exception inside the
  \<^verbatim>\<open>try\<close> is replaced by \<open>OpenRoverException\<close>. The second component is the channel as
  the call leaves it, when there was one.
\<close>

definition get_openrover_version ::
  "CommandVerbs \<Rightarrow> error + 'a OpenRoverProtocol \<Rightarrow> ('a option, 'a OpenRoverProtocol option) result" where
  "get_openrover_version cv device =
     (case device of
        Inl e \<Rightarrow> (Inl OpenRoverException, None)
      | Inr p \<Rightarrow>
          (case version_attempts cv 2 1 p of
             (Inl e, p') \<Rightarrow> (Inl OpenRoverException, Some p')
           | (Inr v, p') \<Rightarrow> (Inr v, Some p')))"

section \<open>The command line tool (pitstop.py)\<close>

subsection \<open>Python's string operations\<close>

text \<open>
  \<^verbatim>\<open>s.split(sep, maxsplit)\<close> for a separator of one character: at most \<open>maxsplit\<close> cuts,
  from the left; the rest of the string is the last piece.
\<close>

fun py_split :: "char \<Rightarrow> nat \<Rightarrow> string \<Rightarrow> string list" where
  "py_split sep 0 s = [s]"
| "py_split sep (Suc n) s =
     (if sep \<in> set s
      then takeWhile (\<lambda>c. c \<noteq> sep) s # py_split sep n (tl (dropWhile (\<lambda>c. c \<noteq> sep) s))
      else [s])"

text \<open>
  \<^verbatim>\<open>int(s)\<close> on a string, base ten, for ASCII text: white space (the characters 9 to
  13 and 32) is stripped on both sides, then an optional sign, then digits, where a single underscore may stand between
  two digits. Anything else raises \<open>ValueError\<close>. (Python also accepts the decimal digits
  and white space of other scripts; a \<open>char\<close> here is a byte.)
\<close>

definition is_space :: "char \<Rightarrow> bool" where
  "is_space c = (let n = (of_char c :: nat) in (9 \<le> n \<and> n \<le> 13) \<or> n = 32)"

definition is_digit :: "char \<Rightarrow> bool" where
  "is_digit c = (let n = (of_char c :: nat) in 48 \<le> n \<and> n \<le> 57)"

definition digit_value :: "char \<Rightarrow> int" where
  "digit_value c = int (of_char c) - 48"

definition py_strip :: "string \<Rightarrow> string" where
  "py_strip s = rev (dropWhile is_space (rev (dropWhile is_space s)))"

fun parse_digits :: "int \<Rightarrow> string \<Rightarrow> int option" where
  "parse_digits acc [] = Some acc"
| "parse_digits acc (c # cs) =
     (if is_digit c then parse_digits (10 * acc + digit_value c) cs
      else if c = CHR ''_'' then
        (case cs of
           [] \<Rightarrow> None
         | d # ds \<Rightarrow> if is_digit d then parse_digits (10 * acc + digit_value d) ds else None)
      else None)"

definition parse_unsigned :: "string \<Rightarrow> int option" where
  "parse_unsigned s =
     (case s of
        [] \<Rightarrow> None
      | c # cs \<Rightarrow> if is_digit c then parse_digits (digit_value c) cs else None)"

definition py_int_str :: "string \<Rightarrow> error + int" where
  "py_int_str s =
     (let t = py_strip s;
          r = (case t of
                 [] \<Rightarrow> None
               | c # cs \<Rightarrow>
                   if c = CHR ''-'' then map_option uminus (parse_unsigned cs)
                   else if c = CHR ''+'' then parse_unsigned cs
                   else parse_unsigned t)
      in case r of None \<Rightarrow> Inl ValueError | Some n \<Rightarrow> Inr n)"

subsection \<open>rover\_command\_arg\_pair\<close>

text \<open>
  \<^verbatim>\<open>CommandVerbs(n)\<close>, the lookup of a member by value: \<open>ValueError\<close> when no member has
  the value.
\<close>

definition verb_of_value :: "CommandVerbs \<Rightarrow> int \<Rightarrow> error + int" where
  "verb_of_value cv n = (if n \<in> set (members cv) then Inr n else Inl ValueError)"

text \<open>
  \<^verbatim>\<open>SETTINGS_VERBS = list(map(CommandVerbs, [3, 4, 5, 6, 7, 8]))\<close> is evaluated when the
  module is loaded, which succeeds only when the six values are members.
\<close>

definition SETTINGS_VERBS :: "int list" where
  "SETTINGS_VERBS = [3, 4, 5, 6, 7, 8]"

definition settings_are_members :: "CommandVerbs \<Rightarrow> bool" where
  "settings_are_members cv = list_all (\<lambda>n. n \<in> set (members cv)) SETTINGS_VERBS"

definition rover_command_arg_pair :: "CommandVerbs \<Rightarrow> string \<Rightarrow> error + int \<times> int" where
  "rover_command_arg_pair cv a =
     (case py_split CHR '':'' 2 a of
        [k, v] \<Rightarrow>
          (case py_int_str k of
             Inl e \<Rightarrow> Inl e
           | Inr kn \<Rightarrow>
               (case verb_of_value cv kn of
                  Inl e \<Rightarrow> Inl e
                | Inr kv \<Rightarrow>
                    if kv \<notin> set SETTINGS_VERBS then Inl ValueError
                    else
                      (case py_int_str v of
                         Inl e \<Rightarrow> Inl e
                       | Inr vn \<Rightarrow>
                           if \<not> (0 \<le> vn \<and> vn \<le> 255) then Inl ValueError
                           else
                             (case verb_of_value cv kv of
                                Inl e \<Rightarrow> Inl e
                              | Inr kv' \<Rightarrow>
                                  (case py_int_str v of
                                     Inl e \<Rightarrow> Inl e
                                   | Inr vn' \<Rightarrow> Inr (kv', vn'))))))
      | _ \<Rightarrow> Inl ValueError)"

subsection \<open>amain\<close>














section \<open>Predicates of the statements\<close>

definition motors_in_range :: "'a Rover \<Rightarrow> bool" where
  "motors_in_range s =
     (in_unit_range (motor_left s) \<and> in_unit_range (motor_right s) \<and> in_unit_range (motor_flipper s))"

text \<open>
  A rover as \<^verbatim>\<open>open_rover\<close> hands it out and as its methods leave it: attached to a
  channel, with the motor triple in range.
\<close>

definition rover_ready :: "'a Rover \<Rightarrow> bool" where
  "rover_ready s = (rover_protocol s \<noteq> None \<and> motors_in_range s)"

text \<open>
  What an observer of the rover sees: the frames submitted so far, the responses still
  to come, and the motor triple.
\<close>

definition frames_of :: "'a Rover \<Rightarrow> CommandFrame list" where
  "frames_of s = (case rover_protocol s of None \<Rightarrow> [] | Some p \<Rightarrow> outgoing p)"

definition pending :: "'a Rover \<Rightarrow> (rat \<times> (error + int \<times> 'a)) list" where
  "pending s = (case rover_protocol s of None \<Rightarrow> [] | Some p \<Rightarrow> incoming p)"

definition motor_triple :: "'a Rover \<Rightarrow> rat \<times> rat \<times> rat" where
  "motor_triple s = (motor_left s, motor_right s, motor_flipper s)"

text \<open>The frame \<^verbatim>\<open>_send_command\<close> hands over in state \<open>s\<close> for a verb and an argument.\<close>

definition frame_with :: "'a Rover \<Rightarrow> int \<Rightarrow> int \<Rightarrow> CommandFrame" where
  "frame_with s cmd a =
     \<lparr>cf_left = motor_left s, cf_right = motor_right s, cf_flipper = motor_flipper s,
      cf_verb = cmd, cf_arg = a\<rparr>"

text \<open>
  The frames a call has added when it takes the rover from \<open>s\<close> to \<open>s'\<close>, and the
  statement that the queue has only grown, by frames that carry the motor triple of \<open>s\<close>.
\<close>

definition submitted :: "'a Rover \<Rightarrow> 'a Rover \<Rightarrow> CommandFrame list" where
  "submitted s s' = drop (length (frames_of s)) (frames_of s')"

definition frames_carry :: "'a Rover \<Rightarrow> 'a Rover \<Rightarrow> bool" where
  "frames_carry s s' =
     (take (length (frames_of s)) (frames_of s') = frames_of s \<and>
      list_all (\<lambda>fr. (cf_left fr, cf_right fr, cf_flipper fr) = motor_triple s) (submitted s s'))"

definition extends :: "'a Rover \<Rightarrow> 'a Rover \<Rightarrow> bool" where
  "extends s s' =
     (motor_triple s' = motor_triple s \<and>
      (\<exists>fs. frames_of s' = frames_of s @ fs \<and>
            (\<forall>fr \<in> set fs. (cf_left fr, cf_right fr, cf_flipper fr) = motor_triple s)))"

text \<open>
  Responses that arrive as decoded pairs: a triple is the waiting time, the key and the
  value. \<open>store_all\<close> is what the second loop of \<^verbatim>\<open>get_data_items\<close> has stored after
  reading them.
\<close>

definition as_response :: "rat \<times> int \<times> 'a \<Rightarrow> rat \<times> (error + int \<times> 'a)" where
  "as_response f = (case f of (d, k, v) \<Rightarrow> (d, Inr (k, v)))"

fun store_all :: "(int \<rightharpoonup> 'a option) \<Rightarrow> (rat \<times> int \<times> 'a) list \<Rightarrow> (int \<rightharpoonup> 'a option)" where
  "store_all m [] = m"
| "store_all m ((d, k, v) # fs) = store_all (m(k \<mapsto> Some v)) fs"









section \<open>Examples\<close>

text \<open>
  A table of verbs, and a rover that moves at \<open>left = 1/2\<close> on a channel where the
  answers to the requests for the elements 14, 28 and 40 are on their way.
\<close>

definition cv0 :: CommandVerbs where
  "cv0 = \<lparr>NOP = 0, GET_DATA = 10, SET_FAN_SPEED = 20, FLIPPER_CALIBRATE = 250, RESTART = 230,
          RELOAD_SETTINGS = 1, COMMIT_SETTINGS = 2,
          members = [0, 1, 2, 3, 4, 5, 6, 7, 8, 10, 20, 230, 250]\<rparr>"

definition channel_example :: "nat OpenRoverProtocol" where
  "channel_example =
     \<lparr>outgoing = [],
      incoming = [(1 / 100, Inr (14, 7)), (1 / 100, Inr (28, 3)), (1 / 100, Inr (40, 10009))]\<rparr>"

definition rover_ex :: "nat Rover" where
  "rover_ex =
     \<lparr>motor_left = 1 / 2, motor_right = 0, motor_flipper = 0,
      rover_protocol = Some channel_example\<rparr>"

text \<open>
  A channel on which the answers to two earlier requests are still pending; a world in
  which every action of the tool succeeds, with the command line that requests all of
  them; and the command line that requests nothing.
\<close>

definition stale_channel :: "nat OpenRoverProtocol" where
  "stale_channel =
     \<lparr>outgoing = [], incoming = [(1 / 100, Inr (14, 7)), (1 / 100, Inr (28, 3))]\<rparr>"




section \<open>set\_motor\_speeds\<close>

lemma set_motor_speeds_accept:
  assumes "in_unit_range l" "in_unit_range r" "in_unit_range f"
  shows "set_motor_speeds l r f s =
           (Inr (), s\<lparr>motor_left := l, motor_right := r, motor_flipper := f\<rparr>)"
  using assms by (simp add: set_motor_speeds_def in_unit_range_def)

lemma set_motor_speeds_reject:
  assumes "\<not> (in_unit_range l \<and> in_unit_range r \<and> in_unit_range f)"
  shows "set_motor_speeds l r f s = (Inl AssertionError, s)"
  using assms by (auto simp add: set_motor_speeds_def in_unit_range_def)

text \<open>
  Claim C4. \<open>set_motor_speeds\<close> keeps every component of the motor triple within
  \<open>[-1, 1]\<close>: a call with a component out of range raises at once (an \<open>AssertionError\<close>)
  and leaves the protocol object, hence the queue of frames, as it was; a call with all
  three in range succeeds; and after every call that succeeds the three stored values lie
  in \<open>[-1, 1]\<close>.
\<close>

theorem set_motor_speeds_range:
  "(\<not> (in_unit_range l \<and> in_unit_range r \<and> in_unit_range f) \<longrightarrow>
      fst (set_motor_speeds l r f s) = Inl AssertionError \<and>
      rover_protocol (snd (set_motor_speeds l r f s)) = rover_protocol s) \<and>
   (in_unit_range l \<and> in_unit_range r \<and> in_unit_range f \<longrightarrow>
      fst (set_motor_speeds l r f s) = Inr ()) \<and>
   (fst (set_motor_speeds l r f s) = Inr () \<longrightarrow>
      motors_in_range (snd (set_motor_speeds l r f s)))"
proof (cases "in_unit_range l \<and> in_unit_range r \<and> in_unit_range f")
  case True
  then have "set_motor_speeds l r f s =
      (Inr (), s\<lparr>motor_left := l, motor_right := r, motor_flipper := f\<rparr>)"
    by (simp add: set_motor_speeds_accept)
  with True show ?thesis by (simp add: motors_in_range_def)
next
  case False
  then have "set_motor_speeds l r f s = (Inl AssertionError, s)"
    by (rule set_motor_speeds_reject)
  with False show ?thesis by simp
qed

theorem set_motor_speeds_range_witness:
  "fst (set_motor_speeds 2 0 0 (Rover_init :: unit Rover)) = Inl AssertionError \<and>
   rover_protocol (snd (set_motor_speeds 2 0 0 (Rover_init :: unit Rover))) = None \<and>
   fst (set_motor_speeds (1 / 2) 0 (- 1) (Rover_init :: unit Rover)) = Inr () \<and>
   motors_in_range (snd (set_motor_speeds (1 / 2) 0 (- 1) (Rover_init :: unit Rover)))"
proof -
  have bad: "\<not> (in_unit_range 2 \<and> in_unit_range 0 \<and> in_unit_range 0)"
    by (simp add: in_unit_range_def)
  have good: "in_unit_range (1 / 2) \<and> in_unit_range 0 \<and> in_unit_range (- 1)"
    by (simp add: in_unit_range_def)
  from bad good
    set_motor_speeds_range [of 2 0 0 "Rover_init :: unit Rover"]
    set_motor_speeds_range [of "1 / 2" 0 "- 1" "Rover_init :: unit Rover"]
  show ?thesis by (simp add: Rover_init_def)
qed

text \<open>
  Claim C9. A call of \<open>set_motor_speeds\<close> with a component out of range leaves the stored
  motor triple exactly as it was: the three checks come before the three assignments, so
  a rejected call never updates a part of it.
\<close>

theorem set_motor_speeds_rejected_unchanged:
  assumes "\<not> (- 1 \<le> l \<and> l \<le> 1) \<or> \<not> (- 1 \<le> r \<and> r \<le> 1) \<or> \<not> (- 1 \<le> f \<and> f \<le> 1)"
  shows "fst (set_motor_speeds l r f s) = Inl AssertionError \<and>
         motor_left (snd (set_motor_speeds l r f s)) = motor_left s \<and>
         motor_right (snd (set_motor_speeds l r f s)) = motor_right s \<and>
         motor_flipper (snd (set_motor_speeds l r f s)) = motor_flipper s"
proof -
  from assms have "\<not> (in_unit_range l \<and> in_unit_range r \<and> in_unit_range f)"
    by (auto simp add: in_unit_range_def)
  then have "set_motor_speeds l r f s = (Inl AssertionError, s)"
    by (rule set_motor_speeds_reject)
  then show ?thesis by simp
qed

theorem set_motor_speeds_rejected_unchanged_witness:
  "fst (set_motor_speeds (1 / 4) (1 / 4) 3
      (\<lparr>motor_left = 1 / 2, motor_right = - 1 / 2, motor_flipper = 1, rover_protocol = None\<rparr>
        :: unit Rover)) = Inl AssertionError \<and>
   motor_left (snd (set_motor_speeds (1 / 4) (1 / 4) 3
      (\<lparr>motor_left = 1 / 2, motor_right = - 1 / 2, motor_flipper = 1, rover_protocol = None\<rparr>
        :: unit Rover))) = 1 / 2 \<and>
   motor_right (snd (set_motor_speeds (1 / 4) (1 / 4) 3
      (\<lparr>motor_left = 1 / 2, motor_right = - 1 / 2, motor_flipper = 1, rover_protocol = None\<rparr>
        :: unit Rover))) = - 1 / 2 \<and>
   motor_flipper (snd (set_motor_speeds (1 / 4) (1 / 4) 3
      (\<lparr>motor_left = 1 / 2, motor_right = - 1 / 2, motor_flipper = 1, rover_protocol = None\<rparr>
        :: unit Rover))) = 1"
proof -
  have h: "\<not> (- 1 \<le> (1 / 4 :: rat) \<and> (1 / 4 :: rat) \<le> 1) \<or>
           \<not> (- 1 \<le> (1 / 4 :: rat) \<and> (1 / 4 :: rat) \<le> 1) \<or>
           \<not> (- 1 \<le> (3 :: rat) \<and> (3 :: rat) \<le> 1)"
    by simp
  from set_motor_speeds_rejected_unchanged [OF h,
      of "\<lparr>motor_left = 1 / 2, motor_right = - 1 / 2, motor_flipper = 1, rover_protocol = None\<rparr>"]
  show ?thesis by simp
qed

section \<open>Facts about the session layer\<close>

lemma rover_ex_ready:
  "rover_protocol rover_ex = Some channel_example" "motors_in_range rover_ex"
  by (simp_all add: rover_ex_def motors_in_range_def in_unit_range_def)

lemma send_command_ready:
  assumes "rover_protocol s = Some p" "motors_in_range s"
  shows "send_command cmd a s =
           (Inr (), s\<lparr>rover_protocol := Some (p\<lparr>outgoing := outgoing p @ [frame_with s cmd a]\<rparr>)\<rparr>)"
  using assms by (simp add: send_command_def write_nowait_def motors_in_range_def frame_with_def)

lemma send_command_cases:
  "send_command cmd a s = (Inl AttributeError, s) \<or>
   send_command cmd a s = (Inl SubmitRejected, s) \<or>
   (\<exists>p. rover_protocol s = Some p \<and> motors_in_range s \<and>
     send_command cmd a s =
       (Inr (), s\<lparr>rover_protocol := Some (p\<lparr>outgoing := outgoing p @ [frame_with s cmd a]\<rparr>)\<rparr>))"
  by (cases "rover_protocol s")
     (auto simp add: send_command_def write_nowait_def motors_in_range_def frame_with_def)

lemma frame_with_update [simp]:
  "frame_with (s\<lparr>rover_protocol := q\<rparr>) = frame_with s"
  by (simp add: frame_with_def fun_eq_iff)

lemma motors_in_range_update [simp]:
  "motors_in_range (s\<lparr>rover_protocol := q\<rparr>) = motors_in_range s"
  by (simp add: motors_in_range_def)

lemma py_int_of_floor: "0 \<le> x \<Longrightarrow> py_int_of x = \<lfloor>x\<rfloor>"
  by (simp add: py_int_of_def)

lemma set_fan_speed_reject:
  "\<not> (0 \<le> x \<and> x \<le> 1) \<Longrightarrow> set_fan_speed cv x s = (Inl AssertionError, s)"
  by (simp add: set_fan_speed_def)

lemma frames_of_update [simp]:
  "frames_of (s\<lparr>rover_protocol := Some p\<rparr>) = outgoing p"
  by (simp add: frames_of_def)

subsection \<open>Rounding to the nearest double is monotone\<close>

lemma pow2_powi: "pow2 e = 2 powi e"
  by (simp add: pow2_def power_int_def field_simps)

lemma pow2_pos: "0 < pow2 e"
  by (simp add: pow2_powi)

lemma pow2_add: "pow2 (a + b) = pow2 a * pow2 b"
  by (simp add: pow2_powi power_int_add)

lemma pow2_mono: "a \<le> b \<Longrightarrow> pow2 a \<le> pow2 b"
  by (simp add: pow2_powi power_int_increasing)

lemma pow2_Suc: "pow2 (e + 1) = 2 * pow2 e"
  by (simp add: pow2_add) (simp add: pow2_def)

lemma pow2_pred: "pow2 (e - 1) = pow2 e / 2"
  using pow2_Suc [of "e - 1"] by simp

lemma pow2_nat: "0 \<le> e \<Longrightarrow> pow2 e = of_int (2 ^ nat e)"
  by (simp add: pow2_def)

lemma ilog2_bounds: "0 < y \<Longrightarrow> pow2 (ilog2 y) \<le> y \<and> y < pow2 (ilog2 y + 1)"
proof (induction y rule: ilog2.induct)
  case (1 y)
  show ?case
  proof (cases "2 \<le> y")
    case True
    then have eq: "ilog2 y = ilog2 (y / 2) + 1" by (subst ilog2.simps) simp
    from True "1.prems" have ih: "pow2 (ilog2 (y / 2)) \<le> y / 2 \<and> y / 2 < pow2 (ilog2 (y / 2) + 1)"
      by (intro "1.IH"(1)) simp_all
    have a: "pow2 (ilog2 (y / 2) + 1) = 2 * pow2 (ilog2 (y / 2))" by (rule pow2_Suc)
    have b: "pow2 (ilog2 (y / 2) + 1 + 1) = 2 * pow2 (ilog2 (y / 2) + 1)" by (rule pow2_Suc)
    from ih have "pow2 (ilog2 (y / 2) + 1) \<le> y \<and> y < pow2 (ilog2 (y / 2) + 1 + 1)"
      by (simp only: a b) simp
    then show ?thesis by (simp only: eq)
  next
    case False
    show ?thesis
    proof (cases "y < 1")
      case True
      with False "1.prems" have eq: "ilog2 y = ilog2 (2 * y) - 1" by (subst ilog2.simps) simp
      from True False "1.prems"
      have ih: "pow2 (ilog2 (2 * y)) \<le> 2 * y \<and> 2 * y < pow2 (ilog2 (2 * y) + 1)"
        by (intro "1.IH"(2)) simp_all
      have a: "pow2 (ilog2 (2 * y) - 1) = pow2 (ilog2 (2 * y)) / 2" by (rule pow2_pred)
      have b: "pow2 (ilog2 (2 * y) + 1) = 2 * pow2 (ilog2 (2 * y))" by (rule pow2_Suc)
      from ih have "pow2 (ilog2 (2 * y) - 1) \<le> y \<and> y < pow2 (ilog2 (2 * y))"
        by (simp only: a b) simp
      then show ?thesis by (simp add: eq)
    next
      case ge: False
      with False have eq: "ilog2 y = 0" by (subst ilog2.simps) simp
      from ge False show ?thesis by (simp add: eq pow2_def)
    qed
  qed
qed

lemma ilog2_mono:
  assumes "0 < y" "y \<le> z"
  shows "ilog2 y \<le> ilog2 z"
proof (rule ccontr)
  assume "\<not> ilog2 y \<le> ilog2 z"
  then have "ilog2 z + 1 \<le> ilog2 y" by simp
  then have "pow2 (ilog2 z + 1) \<le> pow2 (ilog2 y)" by (rule pow2_mono)
  moreover have "z < pow2 (ilog2 z + 1)" using assms ilog2_bounds [of z] by simp
  moreover have "pow2 (ilog2 y) \<le> y" using assms ilog2_bounds [of y] by simp
  ultimately show False using assms(2) by linarith
qed

lemma round_half_even_cases:
  "round_half_even t = \<lfloor>t\<rfloor> \<or> round_half_even t = \<lfloor>t\<rfloor> + 1"
  by (simp add: round_half_even_def Let_def)

lemma round_half_even_of_int: "round_half_even (of_int n) = n"
  by (simp add: round_half_even_def Let_def)

lemma round_half_even_mono:
  assumes "t \<le> u"
  shows "round_half_even t \<le> round_half_even u"
proof (cases "\<lfloor>t\<rfloor> = \<lfloor>u\<rfloor>")
  case True
  have "t - of_int \<lfloor>u\<rfloor> \<le> u - of_int \<lfloor>u\<rfloor>" using assms by simp
  then show ?thesis
    by (auto simp add: round_half_even_def Let_def True)
next
  case False
  with assms have "\<lfloor>t\<rfloor> < \<lfloor>u\<rfloor>" using floor_mono [of t u] by simp
  moreover have "round_half_even t \<le> \<lfloor>t\<rfloor> + 1" using round_half_even_cases [of t] by auto
  moreover have "\<lfloor>u\<rfloor> \<le> round_half_even u" using round_half_even_cases [of u] by auto
  ultimately show ?thesis by linarith
qed

lemma round_half_even_ge: "of_int n \<le> t \<Longrightarrow> n \<le> round_half_even t"
  using round_half_even_mono [of "of_int n" t] by (simp add: round_half_even_of_int)

lemma round_half_even_le: "t \<le> of_int n \<Longrightarrow> round_half_even t \<le> n"
  using round_half_even_mono [of t "of_int n"] by (simp add: round_half_even_of_int)

lemma round_double_pos:
  "0 < y \<Longrightarrow> round_double y =
     of_int (round_half_even (y / pow2 (ulp_exponent y))) * pow2 (ulp_exponent y)"
  by (simp add: round_double_def Let_def)

lemma round_double_nonneg: "0 \<le> y \<Longrightarrow> 0 \<le> round_double y"
proof (cases "y = 0")
  case True
  then show ?thesis by (simp add: round_double_def)
next
  case False
  assume "0 \<le> y"
  with False have y: "0 < y" by simp
  have "0 \<le> y / pow2 (ulp_exponent y)" using y pow2_pos [of "ulp_exponent y"] by simp
  then have "0 \<le> round_half_even (y / pow2 (ulp_exponent y))"
    using round_half_even_ge [of 0] by simp
  then show ?thesis using y pow2_pos [of "ulp_exponent y"] by (simp add: round_double_pos)
qed

lemma round_double_mono:
  assumes "0 \<le> y" "y \<le> z"
  shows "round_double y \<le> round_double z"
proof (cases "y = 0")
  case True
  then have "round_double y = 0" by (simp add: round_double_def)
  moreover have "0 \<le> round_double z" using assms by (intro round_double_nonneg) simp
  ultimately show ?thesis by simp
next
  case False
  with assms have y: "0 < y" and z: "0 < z" by simp_all
  let ?ey = "ulp_exponent y" and ?ez = "ulp_exponent z"
  have ee: "?ey \<le> ?ez"
    using ilog2_mono [OF y assms(2)] by (simp add: ulp_exponent_def)
  show ?thesis
  proof (cases "?ey = ?ez")
    case True
    have "y / pow2 ?ez \<le> z / pow2 ?ez"
      using assms(2) pow2_pos [of ?ez] by (simp add: divide_right_mono)
    then have "round_half_even (y / pow2 ?ez) \<le> round_half_even (z / pow2 ?ez)"
      by (rule round_half_even_mono)
    then have "of_int (round_half_even (y / pow2 ?ez)) * pow2 ?ez \<le>
        (of_int (round_half_even (z / pow2 ?ez)) :: rat) * pow2 ?ez"
      using pow2_pos [of ?ez] by (simp add: mult_right_mono)
    then show ?thesis using y z True by (simp add: round_double_pos)
  next
    case ne: False
    with ee have lt: "?ey < ?ez" by simp
    then have ez: "?ez = ilog2 z - 52"
      by (simp add: ulp_exponent_def max_def split: if_splits)
    have ey: "ilog2 y - 52 \<le> ?ey" by (simp add: ulp_exponent_def)
    let ?B = "pow2 (?ez + 52)"
    \<comment> \<open>the power of two between the two binades\<close>
    have zB: "?B \<le> z" using ilog2_bounds [OF z] by (simp add: ez)
    have "ilog2 y + 1 \<le> ?ez + 52" using ey lt by simp
    then have "pow2 (ilog2 y + 1) \<le> ?B" by (rule pow2_mono)
    with ilog2_bounds [OF y] have yB: "y \<le> ?B" by simp
    have p52: "pow2 52 = of_int (2 ^ 52)" by (simp add: pow2_def)
    have "?B = pow2 (52 + ?ez)" by (simp only: add.commute)
    also have "\<dots> = pow2 52 * pow2 ?ez" by (rule pow2_add)
    finally have Bz: "?B = of_int (2 ^ 52) * pow2 ?ez" by (simp only: p52)
    have d: "0 \<le> ?ez + 52 - ?ey" using lt by simp
    have By: "?B = of_int (2 ^ nat (?ez + 52 - ?ey)) * pow2 ?ey"
      using pow2_add [of "?ez + 52 - ?ey" ?ey] pow2_nat [OF d] by simp
    have "y / pow2 ?ey \<le> of_int (2 ^ nat (?ez + 52 - ?ey))"
      using yB pow2_pos [of ?ey] by (simp add: By pos_divide_le_eq)
    then have "round_half_even (y / pow2 ?ey) \<le> 2 ^ nat (?ez + 52 - ?ey)"
      by (rule round_half_even_le)
    then have "(of_int (round_half_even (y / pow2 ?ey)) :: rat) \<le> of_int (2 ^ nat (?ez + 52 - ?ey))"
      by (simp only: of_int_le_iff)
    then have "of_int (round_half_even (y / pow2 ?ey)) * pow2 ?ey \<le> ?B"
      using pow2_pos [of ?ey] by (simp only: By) (simp add: mult_right_mono)
    then have ry: "round_double y \<le> ?B" using y by (simp add: round_double_pos)
    have "of_int (2 ^ 52) \<le> z / pow2 ?ez"
      using zB pow2_pos [of ?ez] by (simp add: Bz pos_le_divide_eq)
    then have "2 ^ 52 \<le> round_half_even (z / pow2 ?ez)"
      by (rule round_half_even_ge)
    then have "(of_int (2 ^ 52) :: rat) \<le> of_int (round_half_even (z / pow2 ?ez))"
      by (simp only: of_int_le_iff)
    then have "?B \<le> of_int (round_half_even (z / pow2 ?ez)) * pow2 ?ez"
      using pow2_pos [of ?ez] by (simp only: Bz) (simp add: mult_right_mono)
    then have rz: "?B \<le> round_double z" using z by (simp add: round_double_pos)
    from ry rz show ?thesis by simp
  qed
qed

lemma round_double_240: "round_double 240 = 240"
  by code_simp

lemma round_double_0: "round_double 0 = 0"
  by (simp add: round_double_def)

subsection \<open>set\_fan\_speed\<close>

lemma float_mul_240_mono:
  assumes "0 \<le> x" "x \<le> y"
  shows "float_mul x 240 \<le> float_mul y 240"
proof -
  from assms have "0 \<le> x * 240" "x * 240 \<le> y * 240" by simp_all
  then show ?thesis unfolding float_mul_def by (rule round_double_mono)
qed

lemma float_mul_240_bounds:
  assumes "0 \<le> x" "x \<le> 1"
  shows "0 \<le> float_mul x 240 \<and> float_mul x 240 \<le> 240"
proof -
  have "float_mul 0 240 \<le> float_mul x 240" using assms by (intro float_mul_240_mono) simp_all
  moreover have "float_mul x 240 \<le> float_mul 1 240" using assms by (intro float_mul_240_mono)
  ultimately show ?thesis by (simp add: float_mul_def round_double_0 round_double_240)
qed

lemma fan_duty_bounds:
  assumes "0 \<le> x" "x \<le> 1"
  shows "0 \<le> py_int_of (float_mul x 240) \<and> py_int_of (float_mul x 240) \<le> 240"
proof -
  from assms have b: "0 \<le> float_mul x 240 \<and> float_mul x 240 \<le> 240"
    by (rule float_mul_240_bounds)
  then have "py_int_of (float_mul x 240) = \<lfloor>float_mul x 240\<rfloor>" by (simp add: py_int_of_floor)
  with b show ?thesis by (simp add: floor_le_iff le_floor_iff)
qed

lemma fan_duty_mono:
  assumes "0 \<le> x" "x \<le> y"
  shows "py_int_of (float_mul x 240) \<le> py_int_of (float_mul y 240)"
proof -
  have le: "float_mul x 240 \<le> float_mul y 240" using assms by (rule float_mul_240_mono)
  have "0 \<le> float_mul x 240"
    using float_mul_240_mono [of 0 x] assms(1) by (simp add: float_mul_def round_double_0)
  with le have "py_int_of (float_mul x 240) = \<lfloor>float_mul x 240\<rfloor>"
    "py_int_of (float_mul y 240) = \<lfloor>float_mul y 240\<rfloor>"
    by (simp_all add: py_int_of_floor)
  with le show ?thesis by (simp add: floor_mono)
qed

text \<open>
  The rounding shows in the argument. The double nearest to 0.7 lies below 0.7, and its
  exact product with 240 lies below 168; the product as a double is 168.
\<close>

lemma fan_duty_examples:
  "py_int_of (float_mul (1 / 2) 240) = 120"
  "py_int_of (float_mul (3152519739159347 / 4503599627370496) 240) = 168"
  "\<lfloor>(3152519739159347 / 4503599627370496 :: rat) * 240\<rfloor> = 167"
  "py_int_of (float_mul (2308094809027379 / 4503599627370496) 240) = 122"
  "py_int_of (float_mul 0 240) = 0"
  "py_int_of (float_mul 1 240) = 240"
  by code_simp+

lemma set_fan_speed_ready:
  assumes "rover_protocol s = Some p" "motors_in_range s" "0 \<le> x" "x \<le> 1"
  shows "set_fan_speed cv x s =
           (Inr (), s\<lparr>rover_protocol :=
              Some (p\<lparr>outgoing := outgoing p @
                [frame_with s (SET_FAN_SPEED cv) (py_int_of (float_mul x 240))]\<rparr>)\<rparr>)"
  using assms by (simp add: set_fan_speed_def send_command_ready)

text \<open>
  Claim C7. On a rover attached to a channel, with its motor triple in range: for every
  fraction in \<open>[0, 1]\<close>, \<open>set_fan_speed\<close> succeeds and submits exactly one frame, whose verb
  is \<open>SET_FAN_SPEED\<close> and whose argument is the fraction scaled to the duty range: the
  integer part of the float product of the fraction and 240, an integer between 0 and
  240. The argument is monotone in the fraction, 0 gives 0 and 1 gives 240. A fraction
  outside \<open>[0, 1]\<close> raises (an \<open>AssertionError\<close>) and no frame is submitted.
\<close>

theorem set_fan_speed_frame:
  assumes "rover_protocol s = Some p" and "motors_in_range s"
  shows "(0 \<le> x \<and> x \<le> 1 \<longrightarrow>
            fst (set_fan_speed cv x s) = Inr () \<and>
            frames_of (snd (set_fan_speed cv x s)) =
              frames_of s @ [frame_with s (SET_FAN_SPEED cv) (py_int_of (float_mul x 240))] \<and>
            0 \<le> py_int_of (float_mul x 240) \<and> py_int_of (float_mul x 240) \<le> 240) \<and>
         (0 \<le> x \<and> x \<le> y \<and> y \<le> 1 \<longrightarrow>
            cf_arg (last (frames_of (snd (set_fan_speed cv x s)))) \<le>
            cf_arg (last (frames_of (snd (set_fan_speed cv y s))))) \<and>
         cf_arg (last (frames_of (snd (set_fan_speed cv 0 s)))) = 0 \<and>
         cf_arg (last (frames_of (snd (set_fan_speed cv 1 s)))) = 240 \<and>
         (\<not> (0 \<le> x \<and> x \<le> 1) \<longrightarrow>
            fst (set_fan_speed cv x s) = Inl AssertionError \<and>
            frames_of (snd (set_fan_speed cv x s)) = frames_of s)"
proof -
  have fr: "frames_of s = outgoing p"
    using assms(1) by (simp add: frames_of_def)
  have arg: "cf_arg (last (frames_of (snd (set_fan_speed cv z s)))) = py_int_of (float_mul z 240)"
    if "0 \<le> z" "z \<le> 1" for z
    using that assms by (simp add: set_fan_speed_ready frame_with_def)
  have one: "0 \<le> x \<and> x \<le> 1 \<longrightarrow>
            fst (set_fan_speed cv x s) = Inr () \<and>
            frames_of (snd (set_fan_speed cv x s)) =
              frames_of s @ [frame_with s (SET_FAN_SPEED cv) (py_int_of (float_mul x 240))] \<and>
            0 \<le> py_int_of (float_mul x 240) \<and> py_int_of (float_mul x 240) \<le> 240"
    using assms fr by (simp add: set_fan_speed_ready fan_duty_bounds)
  have mono: "0 \<le> x \<and> x \<le> y \<and> y \<le> 1 \<longrightarrow>
            cf_arg (last (frames_of (snd (set_fan_speed cv x s)))) \<le>
            cf_arg (last (frames_of (snd (set_fan_speed cv y s))))"
  proof
    assume h: "0 \<le> x \<and> x \<le> y \<and> y \<le> 1"
    then have "py_int_of (float_mul x 240) \<le> py_int_of (float_mul y 240)"
      by (intro fan_duty_mono) simp_all
    with h show "cf_arg (last (frames_of (snd (set_fan_speed cv x s)))) \<le>
            cf_arg (last (frames_of (snd (set_fan_speed cv y s))))"
      by (simp add: arg)
  qed
  have zero: "cf_arg (last (frames_of (snd (set_fan_speed cv 0 s)))) = 0"
    using arg [of 0] by (simp add: fan_duty_examples)
  have full: "cf_arg (last (frames_of (snd (set_fan_speed cv 1 s)))) = 240"
    using arg [of 1] by (simp add: fan_duty_examples)
  have rej: "\<not> (0 \<le> x \<and> x \<le> 1) \<longrightarrow>
            fst (set_fan_speed cv x s) = Inl AssertionError \<and>
            frames_of (snd (set_fan_speed cv x s)) = frames_of s"
    by (simp add: set_fan_speed_reject)
  from one mono zero full rej show ?thesis by blast
qed

theorem set_fan_speed_frame_witness:
  "fst (set_fan_speed cv0 (1 / 2) rover_ex) = Inr () \<and>
   submitted rover_ex (snd (set_fan_speed cv0 (1 / 2) rover_ex)) =
     [\<lparr>cf_left = 1 / 2, cf_right = 0, cf_flipper = 0, cf_verb = 20, cf_arg = 120\<rparr>] \<and>
   submitted rover_ex (snd (set_fan_speed cv0 (3152519739159347 / 4503599627370496) rover_ex)) =
     [\<lparr>cf_left = 1 / 2, cf_right = 0, cf_flipper = 0, cf_verb = 20, cf_arg = 168\<rparr>] \<and>
   cf_arg (last (frames_of (snd (set_fan_speed cv0 (1 / 2) rover_ex)))) \<le>
     cf_arg (last (frames_of (snd (set_fan_speed cv0 1 rover_ex)))) \<and>
   cf_arg (last (frames_of (snd (set_fan_speed cv0 1 rover_ex)))) = 240 \<and>
   fst (set_fan_speed cv0 2 rover_ex) = Inl AssertionError \<and>
   submitted rover_ex (snd (set_fan_speed cv0 2 rover_ex)) = []"
proof -
  let ?d = "3152519739159347 / 4503599627370496 :: rat"
  note A = set_fan_speed_frame [OF rover_ex_ready, of "1 / 2" cv0 1]
  note B = set_fan_speed_frame [OF rover_ex_ready, of 2 cv0 2]
  note C = set_fan_speed_frame [OF rover_ex_ready, of ?d cv0 1]
  have half: "(0 :: rat) \<le> 1 / 2 \<and> (1 / 2 :: rat) \<le> 1" by simp
  have order: "(0 :: rat) \<le> 1 / 2 \<and> (1 / 2 :: rat) \<le> 1 \<and> (1 :: rat) \<le> 1" by simp
  have out: "\<not> ((0 :: rat) \<le> 2 \<and> (2 :: rat) \<le> 1)" by simp
  have seven: "0 \<le> ?d \<and> ?d \<le> 1" by simp
  from A half have a1: "fst (set_fan_speed cv0 (1 / 2) rover_ex) = Inr ()"
    and a2: "frames_of (snd (set_fan_speed cv0 (1 / 2) rover_ex)) =
       frames_of rover_ex @
       [frame_with rover_ex (SET_FAN_SPEED cv0) (py_int_of (float_mul (1 / 2) 240))]"
    by blast+
  from C seven have c2: "frames_of (snd (set_fan_speed cv0 ?d rover_ex)) =
       frames_of rover_ex @
       [frame_with rover_ex (SET_FAN_SPEED cv0) (py_int_of (float_mul ?d 240))]"
    by blast
  from A order have a3: "cf_arg (last (frames_of (snd (set_fan_speed cv0 (1 / 2) rover_ex)))) \<le>
     cf_arg (last (frames_of (snd (set_fan_speed cv0 1 rover_ex))))"
    by blast
  from A have a4: "cf_arg (last (frames_of (snd (set_fan_speed cv0 1 rover_ex)))) = 240"
    by blast
  from B out have b1: "fst (set_fan_speed cv0 2 rover_ex) = Inl AssertionError"
    and b2: "frames_of (snd (set_fan_speed cv0 2 rover_ex)) = frames_of rover_ex"
    by blast+
  have s1: "submitted rover_ex (snd (set_fan_speed cv0 (1 / 2) rover_ex)) =
     [\<lparr>cf_left = 1 / 2, cf_right = 0, cf_flipper = 0, cf_verb = 20, cf_arg = 120\<rparr>]"
    by (simp add: submitted_def a2 fan_duty_examples) (simp add: frame_with_def rover_ex_def cv0_def)
  have s3: "submitted rover_ex (snd (set_fan_speed cv0 ?d rover_ex)) =
     [\<lparr>cf_left = 1 / 2, cf_right = 0, cf_flipper = 0, cf_verb = 20, cf_arg = 168\<rparr>]"
    by (simp add: submitted_def c2 fan_duty_examples) (simp add: frame_with_def rover_ex_def cv0_def)
  have s2: "submitted rover_ex (snd (set_fan_speed cv0 2 rover_ex)) = []"
    by (simp add: submitted_def b2)
  from a1 s1 s3 a3 a4 b1 s2 show ?thesis by blast
qed

lemma extends_refl: "extends s s"
  by (simp add: extends_def)

lemma extends_trans: "extends s s' \<Longrightarrow> extends s' s'' \<Longrightarrow> extends s s''"
  by (auto simp add: extends_def)

lemma extends_carry: "extends s s' \<Longrightarrow> frames_carry s s'"
  by (auto simp add: extends_def frames_carry_def submitted_def list_all_iff)

lemma extends_triple: "extends s s' \<Longrightarrow> motor_triple s' = motor_triple s"
  by (simp add: extends_def)

lemma send_command_extends: "extends s (snd (send_command cmd a s))"
  using send_command_cases [of cmd a s]
  by (auto simp add: extends_def motor_triple_def frames_of_def frame_with_def)

lemma read_one_outgoing: "outgoing (snd (snd (read_one b p))) = outgoing p"
  by (simp add: read_one_def split: list.splits prod.splits)

lemma read_expected_extends: "extends s (snd (read_expected index s))"
proof (cases "rover_protocol s")
  case None
  then show ?thesis by (simp add: read_expected_def extends_refl)
next
  case (Some p)
  obtain r b p' where rd: "read_one 1 p = (r, b, p')"
    by (cases "read_one 1 p") auto
  then have "outgoing p' = outgoing p"
    using read_one_outgoing [of 1 p] by simp
  with Some rd show ?thesis
    by (auto simp add: read_expected_def extends_def motor_triple_def frames_of_def
        split: sum.splits prod.splits)
qed

lemma send_speed_extends: "extends s (snd (send_speed cv s))"
  by (simp add: send_speed_def send_command_extends)

lemma flipper_calibrate_extends: "extends s (snd (flipper_calibrate cv s))"
  by (simp add: flipper_calibrate_def send_command_extends)

lemma set_fan_speed_extends: "extends s (snd (set_fan_speed cv x s))"
  by (simp add: set_fan_speed_def send_command_extends extends_refl)

lemma get_data_extends: "extends s (snd (get_data cv index s))"
proof -
  obtain r1 s1 where a: "send_command (GET_DATA cv) index s = (r1, s1)"
    by (cases "send_command (GET_DATA cv) index s") auto
  obtain r2 s2 where b: "read_expected index s1 = (r2, s2)"
    by (cases "read_expected index s1") auto
  have e1: "extends s s1" using send_command_extends [of s "GET_DATA cv" index] a by simp
  have e2: "extends s1 s2" using read_expected_extends [of s1 index] b by simp
  have "snd (get_data cv index s) = s1 \<or> snd (get_data cv index s) = s2"
    using a b by (auto simp add: get_data_def split: sum.splits prod.splits)
  with e1 e2 show ?thesis by (auto intro: extends_trans)
qed

lemma send_requests_extends: "extends s (snd (send_requests cv indices s))"
proof (induction indices arbitrary: s)
  case Nil
  then show ?case by (simp add: extends_refl)
next
  case (Cons index indices)
  obtain r1 s1 where a: "send_command (GET_DATA cv) index s = (r1, s1)"
    by (cases "send_command (GET_DATA cv) index s") auto
  have e1: "extends s s1" using send_command_extends [of s "GET_DATA cv" index] a by simp
  show ?case
  proof (cases r1)
    case (Inl e)
    with a e1 show ?thesis by simp
  next
    case (Inr u)
    with a have "snd (send_requests cv (index # indices) s) = snd (send_requests cv indices s1)"
      by simp
    with e1 Cons.IH [of s1] show ?thesis by (auto intro: extends_trans)
  qed
qed

lemma read_responses_extends: "extends s (snd (read_responses indices m s))"
proof (induction indices arbitrary: m s)
  case Nil
  then show ?case by (simp add: extends_refl)
next
  case (Cons index indices)
  obtain r1 s1 where a: "read_expected index s = (r1, s1)"
    by (cases "read_expected index s") auto
  have e1: "extends s s1" using read_expected_extends [of s index] a by simp
  show ?case
  proof (cases r1)
    case (Inl e)
    with a e1 show ?thesis by simp
  next
    case (Inr kd)
    obtain k d where "kd = (k, d)" by (cases kd) auto
    with Inr a have "snd (read_responses (index # indices) m s) =
        snd (read_responses indices (m(k \<mapsto> Some d)) s1)"
      by simp
    with e1 Cons.IH [of s1] show ?thesis by (auto intro: extends_trans)
  qed
qed

lemma get_data_items_extends: "extends s (snd (get_data_items cv indices s))"
proof -
  let ?idx = "sort (remdups indices)"
  obtain r1 s1 where a: "send_requests cv ?idx s = (r1, s1)"
    by (cases "send_requests cv ?idx s") auto
  have e1: "extends s s1" using send_requests_extends [of s cv ?idx] a by simp
  have e2: "extends s1 (snd (read_responses ?idx m s1))" for m
    by (rule read_responses_extends)
  show ?thesis
  proof (cases r1)
    case (Inl e)
    with a e1 show ?thesis by (simp add: get_data_items_def)
  next
    case (Inr u)
    with a have "snd (get_data_items cv indices s) =
        snd (read_responses ?idx (fromkeys ?idx) s1)"
      by (simp add: get_data_items_def Let_def)
    with e1 e2 show ?thesis by (auto intro: extends_trans)
  qed
qed

lemma read_expected_ready:
  assumes "rover_protocol s = Some p"
  shows "read_expected index s =
     (case incoming p of
        [] \<Rightarrow> (Inl TooSlowError, s)
      | (d, r) # rest \<Rightarrow>
          if d < 1 then
            (case r of
               Inl e \<Rightarrow> (Inl e, s\<lparr>rover_protocol := Some (p\<lparr>incoming := rest\<rparr>)\<rparr>)
             | Inr (k, data) \<Rightarrow>
                 if k \<noteq> index
                 then (Inl OpenRoverException, s\<lparr>rover_protocol := Some (p\<lparr>incoming := rest\<rparr>)\<rparr>)
                 else (Inr (k, data), s\<lparr>rover_protocol := Some (p\<lparr>incoming := rest\<rparr>)\<rparr>))
          else (Inl TooSlowError,
                s\<lparr>rover_protocol := Some (p\<lparr>incoming := (d - 1, r) # rest\<rparr>)\<rparr>))"
  using assms
  by (cases s) (auto simp add: read_expected_def read_one_def split: list.splits sum.splits)

lemma get_data_ready:
  assumes "rover_protocol s = Some p" "motors_in_range s"
  shows "get_data cv index s =
     (case read_expected index
             (s\<lparr>rover_protocol := Some (p\<lparr>outgoing := outgoing p @ [frame_with s (GET_DATA cv) index]\<rparr>)\<rparr>) of
        (Inl e, s'') \<Rightarrow> (Inl e, s'')
      | (Inr (k, data), s'') \<Rightarrow> (Inr data, s''))"
  using assms by (simp add: get_data_def send_command_ready)

lemma get_data_frames:
  assumes "rover_protocol s = Some p" "motors_in_range s"
  shows "frames_of (snd (get_data cv index s)) =
           frames_of s @ [frame_with s (GET_DATA cv) index]"
proof -
  let ?p1 = "p\<lparr>outgoing := outgoing p @ [frame_with s (GET_DATA cv) index]\<rparr>"
  let ?s1 = "s\<lparr>rover_protocol := Some ?p1\<rparr>"
  have s1: "rover_protocol ?s1 = Some ?p1" by simp
  show ?thesis
    using assms(1)
    by (simp add: get_data_ready [OF assms] read_expected_ready [OF s1] frames_of_def
        split: list.splits sum.splits prod.splits)
qed

text \<open>
  Readiness is an invariant: it holds once the rover is attached, and every method
  keeps it, whether it returns or raises.
\<close>

lemma rover_ready_attached: "rover_ready (set_device p Rover_init)"
  by (simp add: rover_ready_def set_device_def Rover_init_def motors_in_range_def in_unit_range_def)

lemma extends_ready:
  assumes "extends s s'" "rover_protocol s \<noteq> None \<longrightarrow> rover_protocol s' \<noteq> None" "rover_ready s"
  shows "rover_ready s'"
  using assms
  by (auto simp add: extends_def rover_ready_def motors_in_range_def motor_triple_def)

lemma send_command_attached:
  "rover_protocol s \<noteq> None \<Longrightarrow> rover_protocol (snd (send_command cmd a s)) \<noteq> None"
  using send_command_cases [of cmd a s] by auto

lemma read_expected_attached:
  "rover_protocol s \<noteq> None \<Longrightarrow> rover_protocol (snd (read_expected index s)) \<noteq> None"
  by (auto simp add: read_expected_def split: option.splits sum.splits prod.splits)

lemma send_requests_attached:
  "rover_protocol s \<noteq> None \<Longrightarrow> rover_protocol (snd (send_requests cv indices s)) \<noteq> None"
proof (induction indices arbitrary: s)
  case Nil
  then show ?case by simp
next
  case (Cons index indices)
  obtain r1 s1 where a: "send_command (GET_DATA cv) index s = (r1, s1)"
    by (cases "send_command (GET_DATA cv) index s") auto
  with Cons.prems send_command_attached [of s "GET_DATA cv" index]
  have s1: "rover_protocol s1 \<noteq> None" by simp
  show ?case
  proof (cases r1)
    case (Inl e)
    with a s1 show ?thesis by simp
  next
    case (Inr u)
    with a s1 Cons.IH [of s1] show ?thesis by simp
  qed
qed

lemma read_responses_attached:
  "rover_protocol s \<noteq> None \<Longrightarrow> rover_protocol (snd (read_responses indices m s)) \<noteq> None"
proof (induction indices arbitrary: m s)
  case Nil
  then show ?case by simp
next
  case (Cons index indices)
  obtain r1 s1 where a: "read_expected index s = (r1, s1)"
    by (cases "read_expected index s") auto
  with Cons.prems read_expected_attached [of s index]
  have s1: "rover_protocol s1 \<noteq> None" by simp
  show ?case
  proof (cases r1)
    case (Inl e)
    with a s1 show ?thesis by simp
  next
    case (Inr kd)
    obtain k d where kd: "kd = (k, d)" by (cases kd) auto
    have "rover_protocol (snd (read_responses indices (m(k \<mapsto> Some d)) s1)) \<noteq> None"
      using s1 by (rule Cons.IH)
    with Inr kd a show ?thesis by simp
  qed
qed

lemma rover_ready_preserved:
  assumes "rover_ready s"
  shows "rover_ready (snd (set_motor_speeds l r f s))"
    and "rover_ready (snd (send_speed cv s))"
    and "rover_ready (snd (set_fan_speed cv x s))"
    and "rover_ready (snd (flipper_calibrate cv s))"
    and "rover_ready (snd (get_data cv index s))"
    and "rover_ready (snd (get_data_items cv indices s))"
proof -
  from assms have att: "rover_protocol s \<noteq> None" by (simp add: rover_ready_def)
  show "rover_ready (snd (set_motor_speeds l r f s))"
    using assms
    by (auto simp add: set_motor_speeds_def rover_ready_def motors_in_range_def in_unit_range_def)
  show "rover_ready (snd (send_speed cv s))"
    using assms att send_speed_extends [of s cv] send_command_attached [of s "NOP cv" 0]
    by (auto intro: extends_ready simp add: send_speed_def)
  show "rover_ready (snd (set_fan_speed cv x s))"
    using assms att set_fan_speed_extends [of s cv x]
      send_command_attached [of s "SET_FAN_SPEED cv" "py_int_of (float_mul x 240)"]
    by (auto intro: extends_ready simp add: set_fan_speed_def)
  show "rover_ready (snd (flipper_calibrate cv s))"
    using assms att flipper_calibrate_extends [of s cv]
      send_command_attached [of s "FLIPPER_CALIBRATE cv" "FLIPPER_CALIBRATE cv"]
    by (auto intro: extends_ready simp add: flipper_calibrate_def)
  have "rover_protocol (snd (get_data cv index s)) \<noteq> None"
  proof -
    obtain r1 s1 where a: "send_command (GET_DATA cv) index s = (r1, s1)"
      by (cases "send_command (GET_DATA cv) index s") auto
    with att send_command_attached [of s "GET_DATA cv" index]
    have s1: "rover_protocol s1 \<noteq> None" by simp
    obtain r2 s2 where b: "read_expected index s1 = (r2, s2)"
      by (cases "read_expected index s1") auto
    with s1 read_expected_attached [of s1 index] have s2: "rover_protocol s2 \<noteq> None" by simp
    have "snd (get_data cv index s) = s1 \<or> snd (get_data cv index s) = s2"
      using a b by (auto simp add: get_data_def split: sum.splits prod.splits)
    with s1 s2 show ?thesis by auto
  qed
  with assms get_data_extends [of s cv index]
  show "rover_ready (snd (get_data cv index s))" by (auto intro: extends_ready)
  have "rover_protocol (snd (get_data_items cv indices s)) \<noteq> None"
  proof -
    let ?idx = "sort (remdups indices)"
    obtain r1 s1 where a: "send_requests cv ?idx s = (r1, s1)"
      by (cases "send_requests cv ?idx s") auto
    with att send_requests_attached [of s cv ?idx]
    have s1: "rover_protocol s1 \<noteq> None" by simp
    have s2: "rover_protocol (snd (read_responses ?idx (fromkeys ?idx) s1)) \<noteq> None"
      using s1 by (rule read_responses_attached)
    show ?thesis
      using a s1 s2 by (cases r1) (simp_all add: get_data_items_def Let_def)
  qed
  with assms get_data_items_extends [of s cv indices]
  show "rover_ready (snd (get_data_items cv indices s))" by (auto intro: extends_ready)
qed

text \<open>
  Claim C2. Whatever the verb and the argument, every frame a method of the session layer
  submits carries the motor triple the rover has at that time: for \<open>send_speed\<close> (NOP),
  \<open>set_fan_speed\<close>, \<open>flipper_calibrate\<close>, \<open>get_data\<close> and \<open>get_data_items\<close> (GET\_DATA), the
  queue after the call is the queue before it followed by frames that all carry the
  motor triple of the rover; \<open>set_motor_speeds\<close>, the one remaining method, submits none.
\<close>

theorem frames_carry_current_motor_state:
  "frames_carry s (snd (send_speed cv s)) \<and>
   frames_carry s (snd (set_fan_speed cv x s)) \<and>
   frames_carry s (snd (flipper_calibrate cv s)) \<and>
   frames_carry s (snd (get_data cv index s)) \<and>
   frames_carry s (snd (get_data_items cv indices s)) \<and>
   frames_of (snd (set_motor_speeds l r f s)) = frames_of s"
proof -
  have "frames_of (snd (set_motor_speeds l r f s)) = frames_of s"
    by (simp add: set_motor_speeds_def frames_of_def)
  then show ?thesis
    by (simp add: extends_carry send_speed_extends set_fan_speed_extends
        flipper_calibrate_extends get_data_extends get_data_items_extends)
qed

theorem frames_carry_current_motor_state_witness:
  "frames_carry rover_ex (snd (get_data cv0 14 rover_ex)) \<and>
   submitted rover_ex (snd (get_data cv0 14 rover_ex)) =
     [\<lparr>cf_left = 1 / 2, cf_right = 0, cf_flipper = 0, cf_verb = 10, cf_arg = 14\<rparr>] \<and>
   frames_carry rover_ex (snd (send_speed cv0 rover_ex)) \<and>
   submitted rover_ex (snd (send_speed cv0 rover_ex)) =
     [\<lparr>cf_left = 1 / 2, cf_right = 0, cf_flipper = 0, cf_verb = 0, cf_arg = 0\<rparr>] \<and>
   frames_carry rover_ex (snd (flipper_calibrate cv0 rover_ex)) \<and>
   submitted rover_ex (snd (flipper_calibrate cv0 rover_ex)) =
     [\<lparr>cf_left = 1 / 2, cf_right = 0, cf_flipper = 0, cf_verb = 250, cf_arg = 250\<rparr>] \<and>
   frames_carry rover_ex (snd (get_data_items cv0 [40, 14, 14, 28] rover_ex))"
proof -
  note T = frames_carry_current_motor_state [of rover_ex cv0 0 14 "[40, 14, 14, 28]" 0 0 0]
  have g: "frames_of (snd (get_data cv0 14 rover_ex)) =
      frames_of rover_ex @ [frame_with rover_ex (GET_DATA cv0) 14]"
    by (rule get_data_frames [OF rover_ex_ready])
  have s: "snd (send_speed cv0 rover_ex) =
      rover_ex\<lparr>rover_protocol := Some (channel_example\<lparr>outgoing :=
        outgoing channel_example @ [frame_with rover_ex (NOP cv0) 0]\<rparr>)\<rparr>"
    by (simp add: send_speed_def send_command_ready [OF rover_ex_ready])
  have f: "snd (flipper_calibrate cv0 rover_ex) =
      rover_ex\<lparr>rover_protocol := Some (channel_example\<lparr>outgoing :=
        outgoing channel_example @
          [frame_with rover_ex (FLIPPER_CALIBRATE cv0) (FLIPPER_CALIBRATE cv0)]\<rparr>)\<rparr>"
    by (simp add: flipper_calibrate_def send_command_ready [OF rover_ex_ready])
  have fr: "frames_of rover_ex = []"
    by (simp add: frames_of_def rover_ex_def channel_example_def)
  have "submitted rover_ex (snd (get_data cv0 14 rover_ex)) =
     [\<lparr>cf_left = 1 / 2, cf_right = 0, cf_flipper = 0, cf_verb = 10, cf_arg = 14\<rparr>]"
    by (simp add: submitted_def g fr) (simp add: frame_with_def rover_ex_def cv0_def)
  moreover have "submitted rover_ex (snd (send_speed cv0 rover_ex)) =
     [\<lparr>cf_left = 1 / 2, cf_right = 0, cf_flipper = 0, cf_verb = 0, cf_arg = 0\<rparr>]"
    by (simp add: submitted_def s fr) (simp add: frame_with_def rover_ex_def cv0_def channel_example_def)
  moreover have "submitted rover_ex (snd (flipper_calibrate cv0 rover_ex)) =
     [\<lparr>cf_left = 1 / 2, cf_right = 0, cf_flipper = 0, cf_verb = 250, cf_arg = 250\<rparr>]"
    by (simp add: submitted_def f fr) (simp add: frame_with_def rover_ex_def cv0_def channel_example_def)
  ultimately show ?thesis using T by blast
qed

text \<open>
  Claim C10. No method of the session layer other than \<open>set_motor_speeds\<close> changes the
  stored motor triple: after \<open>send_speed\<close>, \<open>set_fan_speed\<close>, \<open>flipper_calibrate\<close>,
  \<open>get_data\<close> and \<open>get_data_items\<close> the three values are what they were before, whether
  the call returns or raises.
\<close>

theorem only_set_motor_speeds_changes_motors:
  "motor_triple (snd (send_speed cv s)) = motor_triple s \<and>
   motor_triple (snd (set_fan_speed cv x s)) = motor_triple s \<and>
   motor_triple (snd (flipper_calibrate cv s)) = motor_triple s \<and>
   motor_triple (snd (get_data cv index s)) = motor_triple s \<and>
   motor_triple (snd (get_data_items cv indices s)) = motor_triple s"
  by (simp add: extends_triple send_speed_extends set_fan_speed_extends
        flipper_calibrate_extends get_data_extends get_data_items_extends)

text \<open>
  Claim C3. On a rover attached to a channel, with its motor triple in range,
  \<open>get_data index\<close> submits one GET\_DATA frame for \<open>index\<close> and then waits for one
  response for at most one second. A response in time whose key is not \<open>index\<close> makes
  the call raise \<open>OpenRoverException\<close>; that response is consumed, no further one is read
  and none is put back. A response in time whose key is \<open>index\<close> is consumed and its
  value returned. A failure of the channel in time is passed on, and with no response
  within the second the call raises \<open>TooSlowError\<close>.
\<close>

theorem get_data_outcome:
  assumes "rover_protocol s = Some p" and "motors_in_range s"
  shows "frames_of (snd (get_data cv index s)) = frames_of s @ [frame_with s (GET_DATA cv) index] \<and>
         (incoming p = (d, Inr (k, v)) # rest \<and> d < 1 \<and> k \<noteq> index \<longrightarrow>
            fst (get_data cv index s) = Inl OpenRoverException \<and>
            pending (snd (get_data cv index s)) = rest) \<and>
         (incoming p = (d, Inr (k, v)) # rest \<and> d < 1 \<and> k = index \<longrightarrow>
            fst (get_data cv index s) = Inr v \<and>
            pending (snd (get_data cv index s)) = rest) \<and>
         (incoming p = (d, Inl e) # rest \<and> d < 1 \<longrightarrow>
            fst (get_data cv index s) = Inl e) \<and>
         (incoming p = [] \<or> (incoming p = (d, r) # rest \<and> 1 \<le> d) \<longrightarrow>
            fst (get_data cv index s) = Inl TooSlowError)"
proof -
  let ?p1 = "p\<lparr>outgoing := outgoing p @ [frame_with s (GET_DATA cv) index]\<rparr>"
  let ?s1 = "s\<lparr>rover_protocol := Some ?p1\<rparr>"
  have s1: "rover_protocol ?s1 = Some ?p1" by simp
  have gd: "get_data cv index s =
     (case read_expected index ?s1 of
        (Inl e, s'') \<Rightarrow> (Inl e, s'')
      | (Inr (k, data), s'') \<Rightarrow> (Inr data, s''))"
    using assms by (rule get_data_ready)
  have fr: "frames_of (snd (get_data cv index s)) = frames_of s @ [frame_with s (GET_DATA cv) index]"
    using assms by (rule get_data_frames)
  have mism: "incoming p = (d, Inr (k, v)) # rest \<and> d < 1 \<and> k \<noteq> index \<longrightarrow>
            fst (get_data cv index s) = Inl OpenRoverException \<and>
            pending (snd (get_data cv index s)) = rest"
    by (simp add: gd read_expected_ready [OF s1] pending_def)
  have match: "incoming p = (d, Inr (k, v)) # rest \<and> d < 1 \<and> k = index \<longrightarrow>
            fst (get_data cv index s) = Inr v \<and>
            pending (snd (get_data cv index s)) = rest"
    by (simp add: gd read_expected_ready [OF s1] pending_def)
  have chan: "incoming p = (d, Inl e) # rest \<and> d < 1 \<longrightarrow>
            fst (get_data cv index s) = Inl e"
    by (simp add: gd read_expected_ready [OF s1])
  have slow: "incoming p = [] \<or> (incoming p = (d, r) # rest \<and> 1 \<le> d) \<longrightarrow>
            fst (get_data cv index s) = Inl TooSlowError"
    by (auto simp add: gd read_expected_ready [OF s1])
  from fr mism match chan slow show ?thesis by blast
qed

theorem get_data_outcome_witness:
  "fst (get_data cv0 14 rover_ex) = Inr 7 \<and>
   fst (get_data cv0 28 rover_ex) = Inl OpenRoverException \<and>
   pending (snd (get_data cv0 28 rover_ex)) = [(1 / 100, Inr (28, 3)), (1 / 100, Inr (40, 10009))] \<and>
   submitted rover_ex (snd (get_data cv0 28 rover_ex)) =
     [\<lparr>cf_left = 1 / 2, cf_right = 0, cf_flipper = 0, cf_verb = 10, cf_arg = 28\<rparr>] \<and>
   fst (get_data cv0 14 (rover_ex\<lparr>rover_protocol := Some \<lparr>outgoing = [], incoming = []\<rparr>\<rparr>)) =
     Inl TooSlowError \<and>
   fst (get_data cv0 14
     (rover_ex\<lparr>rover_protocol := Some \<lparr>outgoing = [], incoming = [(3 / 2, Inr (14, 7))]\<rparr>\<rparr>)) =
     Inl TooSlowError \<and>
   fst (get_data cv0 14
     (rover_ex\<lparr>rover_protocol := Some \<lparr>outgoing = [], incoming = [(1 / 2, Inl DecodeError)]\<rparr>\<rparr>)) =
     Inl DecodeError"
proof -
  let ?rest = "[(1 / 100, Inr (28, 3)), (1 / 100, Inr (40, 10009))] :: (rat \<times> (error + int \<times> nat)) list"
  let ?silent = "\<lparr>outgoing = [], incoming = []\<rparr> :: nat OpenRoverProtocol"
  let ?late = "\<lparr>outgoing = [], incoming = [(3 / 2, Inr (14, 7))]\<rparr> :: nat OpenRoverProtocol"
  let ?broken = "\<lparr>outgoing = [], incoming = [(1 / 2, Inl DecodeError)]\<rparr> :: nat OpenRoverProtocol"
  have inc: "incoming channel_example = (1 / 100, Inr (14, 7)) # ?rest"
    by (simp add: channel_example_def)
  have ready: "rover_protocol (rover_ex\<lparr>rover_protocol := Some q\<rparr>) = Some q"
      "motors_in_range (rover_ex\<lparr>rover_protocol := Some q\<rparr>)" for q
    using rover_ex_ready(2) by simp_all
  note A = get_data_outcome [OF rover_ex_ready, of cv0 14 "1 / 100" 14 7 ?rest DecodeError "Inl DecodeError"]
  note B = get_data_outcome [OF rover_ex_ready, of cv0 28 "1 / 100" 14 7 ?rest DecodeError "Inl DecodeError"]
  note C = get_data_outcome [OF ready, of cv0 14 ?silent 0 14 7 "[]" DecodeError "Inl DecodeError"]
  note D = get_data_outcome [OF ready, of cv0 14 ?late "3 / 2" 14 7 "[]" DecodeError "Inr (14, 7)"]
  note E = get_data_outcome [OF ready, of cv0 14 ?broken "1 / 2" 14 7 "[]" DecodeError "Inl DecodeError"]
  from A inc have a: "fst (get_data cv0 14 rover_ex) = Inr 7" by simp
  from B inc have b: "fst (get_data cv0 28 rover_ex) = Inl OpenRoverException"
    "pending (snd (get_data cv0 28 rover_ex)) = ?rest" by simp_all
  from B have "frames_of (snd (get_data cv0 28 rover_ex)) =
      frames_of rover_ex @ [frame_with rover_ex (GET_DATA cv0) 28]" by blast
  then have f: "submitted rover_ex (snd (get_data cv0 28 rover_ex)) =
     [\<lparr>cf_left = 1 / 2, cf_right = 0, cf_flipper = 0, cf_verb = 10, cf_arg = 28\<rparr>]"
    by (simp add: submitted_def frame_with_def rover_ex_def cv0_def)
  from C have c: "fst (get_data cv0 14 (rover_ex\<lparr>rover_protocol := Some ?silent\<rparr>)) = Inl TooSlowError"
    by simp
  from D have d: "fst (get_data cv0 14 (rover_ex\<lparr>rover_protocol := Some ?late\<rparr>)) = Inl TooSlowError"
    by simp
  from E have e: "fst (get_data cv0 14 (rover_ex\<lparr>rover_protocol := Some ?broken\<rparr>)) = Inl DecodeError"
    by simp
  from a b f c d e show ?thesis by blast
qed

lemma send_requests_ready:
  assumes "rover_protocol s = Some p" "motors_in_range s"
  shows "send_requests cv indices s =
           (Inr (), s\<lparr>rover_protocol :=
              Some (p\<lparr>outgoing := outgoing p @ map (frame_with s (GET_DATA cv)) indices\<rparr>)\<rparr>)"
  using assms
proof (induction indices arbitrary: s p)
  case Nil
  then show ?case by (cases s) simp
next
  case (Cons index indices)
  let ?p1 = "p\<lparr>outgoing := outgoing p @ [frame_with s (GET_DATA cv) index]\<rparr>"
  let ?s1 = "s\<lparr>rover_protocol := Some ?p1\<rparr>"
  have step: "send_command (GET_DATA cv) index s = (Inr (), ?s1)"
    using Cons.prems by (rule send_command_ready)
  have "send_requests cv indices ?s1 =
      (Inr (), ?s1\<lparr>rover_protocol :=
         Some (?p1\<lparr>outgoing := outgoing ?p1 @ map (frame_with ?s1 (GET_DATA cv)) indices\<rparr>)\<rparr>)"
    using Cons.prems by (intro Cons.IH) simp_all
  with step show ?case by simp
qed

lemma read_responses_match:
  assumes "rover_protocol s = Some p"
      and "incoming p = map as_response fs @ rest"
      and "map (\<lambda>f. fst (snd f)) fs = indices"
      and "list_all (\<lambda>f. fst f < 1) fs"
  shows "read_responses indices m s =
           (Inr (store_all m fs), s\<lparr>rover_protocol := Some (p\<lparr>incoming := rest\<rparr>)\<rparr>)"
  using assms
proof (induction indices arbitrary: s p fs m)
  case Nil
  then show ?case by (cases s, cases p) simp
next
  case (Cons index indices)
  then obtain d k v fs' where fs: "fs = (d, k, v) # fs'"
    by (cases fs) auto
  with Cons.prems have k: "k = index" and d: "d < 1"
    and keys: "map (\<lambda>f. fst (snd f)) fs' = indices" and times: "list_all (\<lambda>f. fst f < 1) fs'"
    by simp_all
  let ?p1 = "p\<lparr>incoming := map as_response fs' @ rest\<rparr>"
  let ?s1 = "s\<lparr>rover_protocol := Some ?p1\<rparr>"
  have step: "read_expected index s = (Inr (index, v), ?s1)"
    using Cons.prems(1,2) fs k d
    by (simp add: read_expected_ready [OF Cons.prems(1)] as_response_def)
  have "read_responses indices (m(index \<mapsto> Some v)) ?s1 =
      (Inr (store_all (m(index \<mapsto> Some v)) fs'),
       ?s1\<lparr>rover_protocol := Some (?p1\<lparr>incoming := rest\<rparr>)\<rparr>)"
    using keys times by (intro Cons.IH) simp_all
  with step fs k show ?case by simp
qed

lemma read_responses_mismatch:
  assumes "rover_protocol s = Some p"
      and "incoming p = map as_response fs @ rest"
      and "length fs = length indices"
      and "map (\<lambda>f. fst (snd f)) fs \<noteq> indices"
      and "list_all (\<lambda>f. fst f < 1) fs"
  shows "fst (read_responses indices m s) = Inl OpenRoverException"
  using assms
proof (induction indices arbitrary: s p fs m)
  case Nil
  then show ?case by simp
next
  case (Cons index indices)
  then obtain d k v fs' where fs: "fs = (d, k, v) # fs'"
    by (cases fs) auto
  with Cons.prems have d: "d < 1"
    and len: "length fs' = length indices" and times: "list_all (\<lambda>f. fst f < 1) fs'"
    by simp_all
  let ?p1 = "p\<lparr>incoming := map as_response fs' @ rest\<rparr>"
  let ?s1 = "s\<lparr>rover_protocol := Some ?p1\<rparr>"
  show ?case
  proof (cases "k = index")
    case False
    then have "read_expected index s = (Inl OpenRoverException, ?s1)"
      using Cons.prems(2) fs d
      by (simp add: read_expected_ready [OF Cons.prems(1)] as_response_def)
    then show ?thesis by simp
  next
    case True
    then have step: "read_expected index s = (Inr (index, v), ?s1)"
      using Cons.prems(2) fs d
      by (simp add: read_expected_ready [OF Cons.prems(1)] as_response_def)
    from True fs Cons.prems(4) have "map (\<lambda>f. fst (snd f)) fs' \<noteq> indices" by simp
    then have "fst (read_responses indices (m(index \<mapsto> Some v)) ?s1) = Inl OpenRoverException"
      using len times by (intro Cons.IH [of ?s1 ?p1 fs']) simp_all
    with step show ?thesis by simp
  qed
qed

lemma store_all_other:
  "k \<notin> set (map (\<lambda>f. fst (snd f)) fs) \<Longrightarrow> store_all m fs k = m k"
proof (induction fs arbitrary: m)
  case Nil
  then show ?case by simp
next
  case (Cons f fs)
  obtain d k' v where f: "f = (d, k', v)" by (cases f) auto
  with Cons.prems have "k \<noteq> k'" and "k \<notin> set (map (\<lambda>f. fst (snd f)) fs)" by auto
  then have "store_all (m(k' \<mapsto> Some v)) fs k = (m(k' \<mapsto> Some v)) k"
    by (intro Cons.IH)
  with f \<open>k \<noteq> k'\<close> show ?case by simp
qed

lemma dom_store_all: "dom (store_all m fs) = dom m \<union> set (map (\<lambda>f. fst (snd f)) fs)"
proof (induction fs arbitrary: m)
  case Nil
  then show ?case by simp
next
  case (Cons f fs)
  obtain d k v where f: "f = (d, k, v)" by (cases f) auto
  have "dom (store_all (m(k \<mapsto> Some v)) fs) =
      dom (m(k \<mapsto> Some v)) \<union> set (map (\<lambda>f. fst (snd f)) fs)"
    by (rule Cons.IH)
  with f show ?case by auto
qed

lemma store_all_nth:
  assumes "distinct (map (\<lambda>f. fst (snd f)) fs)" "j < length fs"
  shows "store_all m fs (fst (snd (fs ! j))) = Some (Some (snd (snd (fs ! j))))"
  using assms
proof (induction fs arbitrary: m j)
  case Nil
  then show ?case by simp
next
  case (Cons f fs)
  obtain d k v where f: "f = (d, k, v)" by (cases f) auto
  show ?case
  proof (cases j)
    case 0
    from Cons.prems f have "k \<notin> set (map (\<lambda>f. fst (snd f)) fs)" by simp
    then have "store_all (m(k \<mapsto> Some v)) fs k = (m(k \<mapsto> Some v)) k"
      by (rule store_all_other)
    with 0 f show ?thesis by simp
  next
    case (Suc i)
    with Cons.prems have "distinct (map (\<lambda>f. fst (snd f)) fs)" "i < length fs" by simp_all
    then have "store_all (m(k \<mapsto> Some v)) fs (fst (snd (fs ! i))) =
        Some (Some (snd (snd (fs ! i))))"
      by (rule Cons.IH)
    with Suc f show ?thesis by simp
  qed
qed

lemma dom_fromkeys: "dom (fromkeys indices) = set indices"
  by (auto simp add: fromkeys_def dom_def)

lemma read_expected_frames: "frames_of (snd (read_expected index s)) = frames_of s"
proof (cases "rover_protocol s")
  case None
  then show ?thesis by (simp add: read_expected_def)
next
  case (Some p)
  obtain r b p' where rd: "read_one 1 p = (r, b, p')"
    by (cases "read_one 1 p") auto
  then have "outgoing p' = outgoing p"
    using read_one_outgoing [of 1 p] by simp
  with Some rd show ?thesis
    by (auto simp add: read_expected_def frames_of_def split: sum.splits prod.splits)
qed

lemma read_responses_frames: "frames_of (snd (read_responses indices m s)) = frames_of s"
proof (induction indices arbitrary: m s)
  case Nil
  then show ?case by simp
next
  case (Cons index indices)
  obtain r1 s1 where a: "read_expected index s = (r1, s1)"
    by (cases "read_expected index s") auto
  have f1: "frames_of s1 = frames_of s"
    using read_expected_frames [of index s] a by simp
  show ?case
  proof (cases r1)
    case (Inl e)
    with a f1 show ?thesis by simp
  next
    case (Inr kd)
    obtain k d where "kd = (k, d)" by (cases kd) auto
    with Inr a have "snd (read_responses (index # indices) m s) =
        snd (read_responses indices (m(k \<mapsto> Some d)) s1)"
      by simp
    moreover have "frames_of (snd (read_responses indices (m(k \<mapsto> Some d)) s1)) = frames_of s1"
      by (rule Cons.IH)
    ultimately show ?thesis using f1 by (simp only:)
  qed
qed

lemma get_data_items_ready:
  assumes "rover_protocol s = Some p" "motors_in_range s"
  shows "get_data_items cv indices s =
     read_responses (sort (remdups indices)) (fromkeys (sort (remdups indices)))
       (s\<lparr>rover_protocol := Some (p\<lparr>outgoing :=
            outgoing p @ map (frame_with s (GET_DATA cv)) (sort (remdups indices))\<rparr>)\<rparr>)"
  using assms by (simp add: get_data_items_def Let_def send_requests_ready)

text \<open>
  Claim C1. On a rover attached to a channel, with its motor triple in range, for every
  list of indices: the indices are sorted and freed of duplicates; exactly one GET\_DATA
  frame per distinct index is submitted, in ascending order; and when as many responses
  as there are distinct indices arrive in time, then either their keys are the requested
  indices in that order, and the call reads exactly these responses and returns a mapping
  whose keys are exactly the requested indices, each with the value decoded for it, or
  some key differs from the index in its position and the whole call raises
  \<open>OpenRoverException\<close>. The witness is the call with the indices 40, 14, 14, 28: three
  requests, and a mapping with exactly the keys 14, 28 and 40.
\<close>

theorem get_data_items_batch:
  assumes "rover_protocol s = Some p" and "motors_in_range s"
  shows "sorted (sort (remdups indices)) \<and> distinct (sort (remdups indices)) \<and>
         set (sort (remdups indices)) = set indices \<and>
         frames_of (snd (get_data_items cv indices s)) =
           frames_of s @ map (frame_with s (GET_DATA cv)) (sort (remdups indices)) \<and>
         (incoming p = map as_response fs @ rest \<and>
          length fs = length (sort (remdups indices)) \<and>
          list_all (\<lambda>f. fst f < 1) fs \<longrightarrow>
            (map (\<lambda>f. fst (snd f)) fs = sort (remdups indices) \<longrightarrow>
               (\<exists>m. fst (get_data_items cv indices s) = Inr m \<and> dom m = set indices \<and>
                    (\<forall>j < length fs.
                       m (sort (remdups indices) ! j) = Some (Some (snd (snd (fs ! j)))))) \<and>
               pending (snd (get_data_items cv indices s)) = rest) \<and>
            (map (\<lambda>f. fst (snd f)) fs \<noteq> sort (remdups indices) \<longrightarrow>
               fst (get_data_items cv indices s) = Inl OpenRoverException))"
proof -
  let ?idx = "sort (remdups indices)"
  let ?p1 = "p\<lparr>outgoing := outgoing p @ map (frame_with s (GET_DATA cv)) ?idx\<rparr>"
  let ?s1 = "s\<lparr>rover_protocol := Some ?p1\<rparr>"
  have s1: "rover_protocol ?s1 = Some ?p1" by simp
  have run: "get_data_items cv indices s = read_responses ?idx (fromkeys ?idx) ?s1"
    using assms by (rule get_data_items_ready)
  have idx: "sorted ?idx \<and> distinct ?idx \<and> set ?idx = set indices"
    by simp
  have frames: "frames_of (snd (get_data_items cv indices s)) =
      frames_of s @ map (frame_with s (GET_DATA cv)) ?idx"
  proof -
    have "frames_of (snd (get_data_items cv indices s)) = frames_of ?s1"
      by (simp only: run read_responses_frames)
    also have "\<dots> = frames_of s @ map (frame_with s (GET_DATA cv)) ?idx"
      using assms(1) by (simp add: frames_of_def)
    finally show ?thesis .
  qed
  have reads: "(map (\<lambda>f. fst (snd f)) fs = ?idx \<longrightarrow>
               (\<exists>m. fst (get_data_items cv indices s) = Inr m \<and> dom m = set indices \<and>
                    (\<forall>j < length fs. m (?idx ! j) = Some (Some (snd (snd (fs ! j)))))) \<and>
               pending (snd (get_data_items cv indices s)) = rest) \<and>
            (map (\<lambda>f. fst (snd f)) fs \<noteq> ?idx \<longrightarrow>
               fst (get_data_items cv indices s) = Inl OpenRoverException)"
    if inc: "incoming p = map as_response fs @ rest"
      and len: "length fs = length ?idx"
      and times: "list_all (\<lambda>f. fst f < 1) fs"
  proof (cases "map (\<lambda>f. fst (snd f)) fs = ?idx")
    case True
    have inc1: "incoming ?p1 = map as_response fs @ rest" using inc by simp
    have res: "read_responses ?idx (fromkeys ?idx) ?s1 =
        (Inr (store_all (fromkeys ?idx) fs), ?s1\<lparr>rover_protocol := Some (?p1\<lparr>incoming := rest\<rparr>)\<rparr>)"
      using s1 inc1 True times by (rule read_responses_match)
    have d: "dom (store_all (fromkeys ?idx) fs) = set indices"
      by (simp only: dom_store_all dom_fromkeys True) simp
    have dist: "distinct (map (\<lambda>f. fst (snd f)) fs)"
      by (simp only: True) simp
    have vals: "\<forall>j < length fs.
        store_all (fromkeys ?idx) fs (?idx ! j) = Some (Some (snd (snd (fs ! j))))"
    proof (intro allI impI)
      fix j assume j: "j < length fs"
      have "?idx ! j = map (\<lambda>f. fst (snd f)) fs ! j" by (simp only: True)
      also have "\<dots> = fst (snd (fs ! j))" using j by simp
      finally show "store_all (fromkeys ?idx) fs (?idx ! j) = Some (Some (snd (snd (fs ! j))))"
        using store_all_nth [OF dist j] by simp
    qed
    have "pending (snd (get_data_items cv indices s)) = rest"
      by (simp add: run res pending_def)
    moreover have "\<exists>m. fst (get_data_items cv indices s) = Inr m \<and> dom m = set indices \<and>
        (\<forall>j < length fs. m (?idx ! j) = Some (Some (snd (snd (fs ! j)))))"
      using d vals by (simp add: run res)
    ultimately show ?thesis using True by blast
  next
    case False
    have inc1: "incoming ?p1 = map as_response fs @ rest" using inc by simp
    have "fst (read_responses ?idx (fromkeys ?idx) ?s1) = Inl OpenRoverException"
      using s1 inc1 len False times by (rule read_responses_mismatch)
    with False show ?thesis by (simp add: run)
  qed
  from idx frames reads show ?thesis by blast
qed

theorem get_data_items_batch_witness:
  "length (submitted rover_ex (snd (get_data_items cv0 [40, 14, 14, 28] rover_ex))) = 3 \<and>
   map cf_arg (submitted rover_ex (snd (get_data_items cv0 [40, 14, 14, 28] rover_ex))) = [14, 28, 40] \<and>
   (\<exists>m. fst (get_data_items cv0 [40, 14, 14, 28] rover_ex) = Inr m \<and> dom m = {14, 28, 40} \<and>
        m 14 = Some (Some 7) \<and> m 28 = Some (Some 3) \<and> m 40 = Some (Some 10009)) \<and>
   pending (snd (get_data_items cv0 [40, 14, 14, 28] rover_ex)) = []"
proof -
  let ?fs = "[(1 / 100, 14, 7), (1 / 100, 28, 3), (1 / 100, 40, 10009)] :: (rat \<times> int \<times> nat) list"
  have idx: "sort (remdups [40, 14, 14, 28 :: int]) = [14, 28, 40]" by simp
  have inc: "incoming channel_example = map as_response ?fs @ []"
    by (simp add: channel_example_def as_response_def)
  have len: "length ?fs = length (sort (remdups [40, 14, 14, 28 :: int]))"
    by (simp only: idx) simp
  have times: "list_all (\<lambda>f. fst f < 1) ?fs" by simp
  have keys: "map (\<lambda>f. fst (snd f)) ?fs = sort (remdups [40, 14, 14, 28 :: int])"
    by (simp only: idx) simp
  note T = get_data_items_batch [OF rover_ex_ready, of "[40, 14, 14, 28]" cv0 ?fs "[]"]
  from T have "frames_of (snd (get_data_items cv0 [40, 14, 14, 28] rover_ex)) =
      frames_of rover_ex @
      map (frame_with rover_ex (GET_DATA cv0)) (sort (remdups [40, 14, 14, 28]))"
    by blast
  then have frames: "frames_of (snd (get_data_items cv0 [40, 14, 14, 28] rover_ex)) =
      frames_of rover_ex @ map (frame_with rover_ex (GET_DATA cv0)) [14, 28, 40]"
    by (simp only: idx)
  from T inc len times keys
  obtain m where m: "fst (get_data_items cv0 [40, 14, 14, 28] rover_ex) = Inr m"
      "dom m = set [40, 14, 14, 28]"
      "\<forall>j < length ?fs. m (sort (remdups [40, 14, 14, 28]) ! j) = Some (Some (snd (snd (?fs ! j))))"
    and pend: "pending (snd (get_data_items cv0 [40, 14, 14, 28] rover_ex)) = []"
    by blast
  from m(3) have all: "\<forall>j < 3. m ([14, 28, 40] ! j) = Some (Some (snd (snd (?fs ! j))))"
    by (simp only: idx) simp
  have "m ([14, 28, 40] ! 0) = Some (Some (snd (snd (?fs ! 0))))"
      "m ([14, 28, 40] ! 1) = Some (Some (snd (snd (?fs ! 1))))"
      "m ([14, 28, 40] ! 2) = Some (Some (snd (snd (?fs ! 2))))"
    using all [rule_format, of 0] all [rule_format, of 1] all [rule_format, of 2]
    by simp_all
  then have vals: "m 14 = Some (Some 7)" "m 28 = Some (Some 3)" "m 40 = Some (Some 10009)"
    by simp_all
  from m(2) have d: "dom m = {14, 28, 40}" by auto
  have sub: "submitted rover_ex (snd (get_data_items cv0 [40, 14, 14, 28] rover_ex)) =
      map (frame_with rover_ex (GET_DATA cv0)) [14, 28, 40]"
    by (simp add: submitted_def frames)
  have "length (submitted rover_ex (snd (get_data_items cv0 [40, 14, 14, 28] rover_ex))) = 3"
    "map cf_arg (submitted rover_ex (snd (get_data_items cv0 [40, 14, 14, 28] rover_ex))) = [14, 28, 40]"
    by (simp_all add: sub frame_with_def)
  with m(1) d vals pend show ?thesis by blast
qed

section \<open>get\_openrover\_version\<close>

lemma get_openrover_version_raises:
  "fst (get_openrover_version cv device) = Inl e \<Longrightarrow> e = OpenRoverException"
  by (auto simp add: get_openrover_version_def split: sum.splits prod.splits)

lemma get_openrover_version_first:
  assumes "incoming p = (d, Inr (40, v)) # rest" "d < 1"
  shows "fst (get_openrover_version cv (Inr p)) = Inr (Some v)"
  using assms
  by (simp add: get_openrover_version_def numeral_2_eq_2 write_nowait_def in_unit_range_def
      read_one_def)

lemma get_openrover_version_second:
  assumes "incoming p = (d, Inr (k, u)) # (d', Inr (40, v)) # rest" "k \<noteq> 40" "d + d' < 1" "0 \<le> d'"
  shows "fst (get_openrover_version cv (Inr p)) = Inr (Some v)"
  using assms
  by (simp add: get_openrover_version_def numeral_2_eq_2 write_nowait_def in_unit_range_def
      read_one_def)

lemma get_openrover_version_silent:
  assumes "incoming p = []"
  shows "fst (get_openrover_version cv (Inr p)) = Inl OpenRoverException"
  using assms
  by (simp add: get_openrover_version_def numeral_2_eq_2 write_nowait_def in_unit_range_def
      read_one_def)

lemma get_openrover_version_overall_deadline:
  assumes "incoming p = (d, Inr (k, u)) # (d', r) # rest" "k \<noteq> 40" "d < 1" "1 \<le> d + d'"
  shows "fst (get_openrover_version cv (Inr p)) = Inl OpenRoverException"
  using assms
  by (simp add: get_openrover_version_def numeral_2_eq_2 write_nowait_def in_unit_range_def
      read_one_def)

text \<open>
  Claim C5. \<open>get_openrover_version\<close> is to report \<open>OpenRoverException\<close> whenever no valid
  version response arrives. It does not when both attempts are answered in time by
  responses for other elements: on a channel where the responses with the keys 14 and 28
  are pending, the two requests for element 40 are submitted, both responses are read,
  the loop ends and the call returns \<^verbatim>\<open>None\<close> without raising.
\<close>

theorem get_openrover_version_returns_None:
  "get_openrover_version cv0 (Inr stale_channel) =
     (Inr None,
      Some \<lparr>outgoing =
              [\<lparr>cf_left = 0, cf_right = 0, cf_flipper = 0, cf_verb = 10, cf_arg = 40\<rparr>,
               \<lparr>cf_left = 0, cf_right = 0, cf_flipper = 0, cf_verb = 10, cf_arg = 40\<rparr>],
            incoming = []\<rparr>)"
  by (simp add: get_openrover_version_def stale_channel_def cv0_def numeral_2_eq_2
      write_nowait_def in_unit_range_def read_one_def)

section \<open>rover\_command\_arg\_pair\<close>

lemma py_split_one:
  "c \<notin> set v \<Longrightarrow> py_split c (Suc 0) v = [v]"
  by simp

lemma py_split_two_intro:
  assumes "c \<notin> set k" "c \<notin> set v"
  shows "py_split c 2 (k @ c # v) = [k, v]"
proof -
  have tw: "takeWhile (\<lambda>x. x \<noteq> c) (k @ c # v) = k"
    using assms(1) by (induction k) auto
  have dw: "dropWhile (\<lambda>x. x \<noteq> c) (k @ c # v) = c # v"
    using assms(1) by (induction k) auto
  have "py_split c (Suc (Suc 0)) (k @ c # v) = [k, v]"
    using assms(2) by (simp add: tw dw)
  then show ?thesis by (simp add: numeral_2_eq_2)
qed

lemma py_split_two_elim:
  assumes "py_split c 2 a = [k, v]"
  shows "a = k @ c # v \<and> c \<notin> set k \<and> c \<notin> set v"
proof -
  let ?P = "\<lambda>x. x \<noteq> c"
  let ?b = "tl (dropWhile ?P a)"
  from assms have two: "py_split c (Suc (Suc 0)) a = [k, v]"
    by (simp add: numeral_2_eq_2)
  have ina: "c \<in> set a"
  proof (rule ccontr)
    assume "c \<notin> set a"
    with two show False by simp
  qed
  with two have rest: "takeWhile ?P a # py_split c (Suc 0) ?b = [k, v]"
    by simp
  then have k: "k = takeWhile ?P a" and one: "py_split c (Suc 0) ?b = [v]"
    by simp_all
  have notb: "c \<notin> set ?b"
  proof (rule ccontr)
    assume "\<not> c \<notin> set ?b"
    with one show False by simp
  qed
  with one have v: "v = ?b" by simp
  from ina have "dropWhile ?P a \<noteq> []" by (simp add: dropWhile_eq_Nil_conv)
  moreover from this have "hd (dropWhile ?P a) = c"
    using hd_dropWhile [of ?P a] by simp
  ultimately have dw: "dropWhile ?P a = c # ?b"
    by (cases "dropWhile ?P a") simp_all
  have "a = takeWhile ?P a @ dropWhile ?P a" by simp
  with dw k v have "a = k @ c # v" by simp
  moreover have "c \<notin> set k"
    using k set_takeWhileD [of c ?P a] by auto
  ultimately show ?thesis using notb v by simp
qed

lemma colon_not_space: "\<not> is_space CHR '':''"
  by (simp add: is_space_def)

lemma colon_not_digit: "\<not> is_digit CHR '':''"
  by (simp add: is_digit_def)

lemma parse_digits_no_colon:
  "parse_digits acc cs = Some n \<Longrightarrow> CHR '':'' \<notin> set cs"
proof (induction acc cs rule: parse_digits.induct)
  case (1 acc)
  then show ?case by simp
next
  case (2 acc c cs)
  show ?case
  proof (cases "is_digit c")
    case True
    with 2 colon_not_digit show ?thesis by auto
  next
    case False
    with "2.prems" have us: "c = CHR ''_''"
      by (simp split: if_splits)
    with False "2.prems" obtain d ds where cs: "cs = d # ds" and d: "is_digit d"
      and rest: "parse_digits (10 * acc + digit_value d) ds = Some n"
      by (cases cs) (auto split: if_splits)
    from False us cs d rest "2.IH"(2) have "CHR '':'' \<notin> set ds" by simp
    with us cs d colon_not_digit show ?thesis by auto
  qed
qed

lemma parse_unsigned_no_colon:
  "parse_unsigned s = Some n \<Longrightarrow> CHR '':'' \<notin> set s"
  using colon_not_digit
  by (cases s) (auto simp add: parse_unsigned_def split: if_splits dest: parse_digits_no_colon)

lemma strip_keeps_non_space:
  assumes "c \<in> set s" "\<not> is_space c"
  shows "c \<in> set (py_strip s)"
proof -
  let ?t = "dropWhile is_space s"
  have "set s = set (takeWhile is_space s) \<union> set ?t"
    by (metis set_append takeWhile_dropWhile_id)
  with assms have t: "c \<in> set ?t"
    by (auto dest: set_takeWhileD)
  have "set (rev ?t) = set (takeWhile is_space (rev ?t)) \<union> set (dropWhile is_space (rev ?t))"
    by (metis set_append takeWhile_dropWhile_id)
  with t assms(2) have "c \<in> set (dropWhile is_space (rev ?t))"
    by (auto dest: set_takeWhileD)
  then show ?thesis by (simp add: py_strip_def)
qed

lemma py_int_str_no_colon:
  assumes "py_int_str s = Inr n"
  shows "CHR '':'' \<notin> set s"
proof
  assume "CHR '':'' \<in> set s"
  then have mem: "CHR '':'' \<in> set (py_strip s)"
    using colon_not_space by (rule strip_keeps_non_space)
  then obtain c cs where t: "py_strip s = c # cs" by (cases "py_strip s") auto
  show False
  proof (cases "c = CHR ''-'' \<or> c = CHR ''+''")
    case True
    with assms t obtain m where "parse_unsigned cs = Some m"
      by (auto simp add: py_int_str_def Let_def split: option.splits if_splits)
    then have "CHR '':'' \<notin> set cs" by (rule parse_unsigned_no_colon)
    with mem t True show False by auto
  next
    case False
    with assms t obtain m where "parse_unsigned (c # cs) = Some m"
      by (auto simp add: py_int_str_def Let_def split: option.splits if_splits)
    then have "CHR '':'' \<notin> set (c # cs)" by (rule parse_unsigned_no_colon)
    with mem t show False by simp
  qed
qed

lemma in_SETTINGS_VERBS: "k \<in> set SETTINGS_VERBS \<longleftrightarrow> 3 \<le> k \<and> k \<le> 8"
  by (auto simp add: SETTINGS_VERBS_def)

lemma settings_member:
  "settings_are_members cv \<Longrightarrow> k \<in> set SETTINGS_VERBS \<Longrightarrow> verb_of_value cv k = Inr k"
  by (simp add: settings_are_members_def verb_of_value_def list_all_iff)

lemma verb_of_value_Inr: "verb_of_value cv n = Inr k \<Longrightarrow> k = n"
  by (simp add: verb_of_value_def split: if_splits)

lemma verb_of_value_Inl: "verb_of_value cv n = Inl e \<Longrightarrow> e = ValueError"
  by (simp add: verb_of_value_def split: if_splits)

lemma py_int_str_Inl: "py_int_str s = Inl e \<Longrightarrow> e = ValueError"
  by (simp add: py_int_str_def Let_def split: option.splits)

lemma rover_command_arg_pair_accepts:
  assumes "settings_are_members cv"
      and "py_int_str ks = Inr k" "3 \<le> k" "k \<le> 8"
      and "py_int_str vs = Inr v" "0 \<le> v" "v \<le> 255"
  shows "rover_command_arg_pair cv (ks @ CHR '':'' # vs) = Inr (k, v)"
proof -
  have "py_split CHR '':'' 2 (ks @ CHR '':'' # vs) = [ks, vs]"
    using assms(2,5) by (intro py_split_two_intro py_int_str_no_colon)
  moreover have "k \<in> set SETTINGS_VERBS" using assms(3,4) by (simp add: in_SETTINGS_VERBS)
  moreover from this have "verb_of_value cv k = Inr k"
    using assms(1) by (simp add: settings_member)
  ultimately show ?thesis
    using assms(2,5,6,7) by (simp add: rover_command_arg_pair_def)
qed

lemma rover_command_arg_pair_accepted:
  assumes "rover_command_arg_pair cv a = Inr (k, v)"
  shows "\<exists>ks vs. a = ks @ CHR '':'' # vs \<and> py_int_str ks = Inr k \<and> 3 \<le> k \<and> k \<le> 8 \<and>
           py_int_str vs = Inr v \<and> 0 \<le> v \<and> v \<le> 255"
proof -
  from assms obtain ks vs where sp: "py_split CHR '':'' 2 a = [ks, vs]"
    by (auto simp add: rover_command_arg_pair_def split: list.splits)
  from assms sp obtain kn where kn: "py_int_str ks = Inr kn"
    by (auto simp add: rover_command_arg_pair_def split: sum.splits)
  from assms sp kn obtain kv where kv: "verb_of_value cv kn = Inr kv"
    by (auto simp add: rover_command_arg_pair_def split: sum.splits)
  then have kveq: "kv = kn" by (rule verb_of_value_Inr)
  from assms sp kn kv have inset: "kv \<in> set SETTINGS_VERBS"
    by (auto simp add: rover_command_arg_pair_def split: if_splits)
  from assms sp kn kv inset obtain vn where vn: "py_int_str vs = Inr vn"
    by (auto simp add: rover_command_arg_pair_def split: sum.splits)
  from assms sp kn kv inset vn have rng: "0 \<le> vn \<and> vn \<le> 255" and res: "k = kv \<and> v = vn"
    by (auto simp add: rover_command_arg_pair_def split: if_splits sum.splits
        dest: verb_of_value_Inr)
  from sp have "a = ks @ CHR '':'' # vs" using py_split_two_elim by blast
  with kn kveq inset vn rng res show ?thesis
    by (auto simp add: in_SETTINGS_VERBS)
qed

lemma rover_command_arg_pair_error:
  assumes "rover_command_arg_pair cv a = Inl e"
  shows "e = ValueError"
  using assms
  by (auto simp add: rover_command_arg_pair_def
      split: list.splits sum.splits if_splits
      dest: verb_of_value_Inl py_int_str_Inl)

lemma settings_cv0: "settings_are_members cv0"
  by (simp add: settings_are_members_def SETTINGS_VERBS_def cv0_def)

lemma py_int_str_5: "py_int_str ''5'' = Inr 5"
  by (simp add: py_int_str_def py_strip_def is_space_def parse_unsigned_def is_digit_def digit_value_def)

lemma py_int_str_200: "py_int_str '' 200'' = Inr 200"
  by (simp add: py_int_str_def py_strip_def is_space_def parse_unsigned_def is_digit_def digit_value_def)

text \<open>
  Claim C6. With the values 3 to 8 members of the enumeration, \<open>rover_command_arg_pair\<close>
  returns the pair \<open>(k, v)\<close> exactly when its argument is a string \<open>ks:vs\<close> where \<open>ks\<close>
  parses to the integer \<open>k\<close> in 3..8 and \<open>vs\<close> parses to the integer \<open>v\<close> in 0..255; on every
  other argument it raises \<open>ValueError\<close>.
\<close>

theorem rover_command_arg_pair_spec:
  assumes "settings_are_members cv"
  shows "(rover_command_arg_pair cv a = Inr (k, v) \<longleftrightarrow>
            (\<exists>ks vs. a = ks @ CHR '':'' # vs \<and>
               py_int_str ks = Inr k \<and> 3 \<le> k \<and> k \<le> 8 \<and>
               py_int_str vs = Inr v \<and> 0 \<le> v \<and> v \<le> 255)) \<and>
         ((\<exists>kv. rover_command_arg_pair cv a = Inr kv) \<or>
            rover_command_arg_pair cv a = Inl ValueError)"
proof -
  have acc: "rover_command_arg_pair cv a = Inr (k, v) \<longleftrightarrow>
            (\<exists>ks vs. a = ks @ CHR '':'' # vs \<and>
               py_int_str ks = Inr k \<and> 3 \<le> k \<and> k \<le> 8 \<and>
               py_int_str vs = Inr v \<and> 0 \<le> v \<and> v \<le> 255)"
    using rover_command_arg_pair_accepts [OF assms] rover_command_arg_pair_accepted
    by blast
  have err: "(\<exists>kv. rover_command_arg_pair cv a = Inr kv) \<or>
            rover_command_arg_pair cv a = Inl ValueError"
  proof (cases "rover_command_arg_pair cv a")
    case (Inl e)
    then show ?thesis using rover_command_arg_pair_error by blast
  next
    case (Inr kv)
    then show ?thesis by simp
  qed
  from acc err show ?thesis ..
qed

theorem rover_command_arg_pair_spec_witness:
  "rover_command_arg_pair cv0 ''5: 200'' = Inr (5, 200) \<and>
   rover_command_arg_pair cv0 ''9:1'' = Inl ValueError \<and>
   rover_command_arg_pair cv0 ''5:256'' = Inl ValueError \<and>
   rover_command_arg_pair cv0 ''5'' = Inl ValueError \<and>
   rover_command_arg_pair cv0 ''5:1:2'' = Inl ValueError \<and>
   rover_command_arg_pair cv0 ''five:1'' = Inl ValueError"
proof -
  have "\<exists>ks vs. ''5: 200'' = ks @ CHR '':'' # vs \<and> py_int_str ks = Inr 5 \<and> (3 :: int) \<le> 5 \<and>
      (5 :: int) \<le> 8 \<and> py_int_str vs = Inr 200 \<and> (0 :: int) \<le> 200 \<and> (200 :: int) \<le> 255"
    using py_int_str_5 py_int_str_200 by (intro exI [of _ "''5''"] exI [of _ "'' 200''"]) simp
  with rover_command_arg_pair_spec [OF settings_cv0, of "''5: 200''" 5 200]
  have ok: "rover_command_arg_pair cv0 ''5: 200'' = Inr (5, 200)" by blast
  have bad: "rover_command_arg_pair cv0 ''9:1'' = Inl ValueError"
    "rover_command_arg_pair cv0 ''5:256'' = Inl ValueError"
    "rover_command_arg_pair cv0 ''5'' = Inl ValueError"
    "rover_command_arg_pair cv0 ''5:1:2'' = Inl ValueError"
    "rover_command_arg_pair cv0 ''five:1'' = Inl ValueError"
    by (simp_all add: rover_command_arg_pair_def numeral_2_eq_2 py_int_str_def py_strip_def
        is_space_def parse_unsigned_def is_digit_def digit_value_def verb_of_value_def cv0_def
        SETTINGS_VERBS_def)
  from ok bad show ?thesis by blast
qed

section \<open>amain\<close>















end
